theory Spec2Isabelle
  imports Complex_Main "HOL-Library.Word"
begin

unbundle bit_operations_syntax

section \<open>Semantic vector analysis engine of the graph page (src/pages/ConfigMgmt.tsx)\<close>

text \<open>
  The engine is the group of module-level functions \<^verbatim>\<open>createSeededRandom\<close>,
  \<^verbatim>\<open>projectTo2D\<close>, \<^verbatim>\<open>euclideanDistance\<close>, \<^verbatim>\<open>extractValidEmbeddings\<close>,
  \<^verbatim>\<open>runKMeans\<close>, \<^verbatim>\<open>runAgglomerative\<close>, \<^verbatim>\<open>runDbscan\<close> and the memoised
  \<^verbatim>\<open>enrichedNodes\<close> and \<^verbatim>\<open>clusterInsights\<close> of the component \<^verbatim>\<open>Graph\<close>.

  Numbers. A finite JavaScript number is modelled as a real: arithmetic is exact, there is
  no rounding and no overflow. The non-finite numbers exist only where the source tests
  for them (\<^verbatim>\<open>Number.isFinite\<close> in \<^verbatim>\<open>extractValidEmbeddings\<close>); the value
  \<^verbatim>\<open>Infinity\<close> that initialises a running minimum is \<open>None\<close> of a \<open>real option\<close>.
\<close>

subsection \<open>Values and records\<close>

datatype jsnum = Fin real | NaN | PosInf | NegInf

text \<open>
  What a field read from untyped data can hold. \<open>JObject\<close> stands for any non-array
  object. An array can have holes, indices below its \<^verbatim>\<open>length\<close> at which it holds no
  element (\<^verbatim>\<open>new Array(3)\<close>, \<^verbatim>\<open>[1, , 3]\<close>): \<open>JHole\<close> marks such an index in the list of
  a \<open>JArray\<close>, and occurs nowhere else. The \<^verbatim>\<open>length\<close> counts the holes; \<^verbatim>\<open>map\<close>,
  \<^verbatim>\<open>filter\<close> and \<^verbatim>\<open>forEach\<close> call their function on the elements only, which
  \<open>elementsOf\<close> lists.
\<close>

datatype jsval =
    JUndefined
  | JNull
  | JBool bool
  | JNumber jsnum
  | JString string
  | JArray "jsval list"
  | JObject
  | JHole

definition elementsOf :: "jsval list \<Rightarrow> jsval list" where
  "elementsOf emb = filter (\<lambda>value. value \<noteq> JHole) emb"

text \<open>
  The type \<^verbatim>\<open>SemanticNode\<close>, with the fields the engine reads. The declared type of
  \<^verbatim>\<open>embedding\<close> is \<^verbatim>\<open>number[]\<close>; \<^verbatim>\<open>extractValidEmbeddings\<close> tests it at run time
  (\<^verbatim>\<open>item?.embedding\<close>, \<^verbatim>\<open>Array.isArray\<close>, \<^verbatim>\<open>Number(value)\<close>), so the field holds a
  \<open>jsval\<close>. A missing field, and an item that is itself \<^verbatim>\<open>null\<close> or \<^verbatim>\<open>undefined\<close>, read as
  \<open>JUndefined\<close>.
\<close>

record SemanticNode =
  key :: string
  region :: string
  embedding :: jsval
  volatility :: real
  velocity :: real

definition isFinite :: "jsnum \<Rightarrow> bool" where
  "isFinite x = (case x of Fin _ \<Rightarrow> True | _ \<Rightarrow> False)"

text \<open>
  \<^verbatim>\<open>Number(value)\<close>. The conversion of a string, an array or an object goes through
  \<^verbatim>\<open>ToPrimitive\<close> and the grammar of numeric string literals; it is the parameter
  \<open>conv\<close>. The other cases are fixed by the language.
\<close>

fun Number :: "(jsval \<Rightarrow> jsnum) \<Rightarrow> jsval \<Rightarrow> jsnum" where
  "Number conv JUndefined = NaN"
| "Number conv JNull = Fin 0"
| "Number conv (JBool b) = Fin (if b then 1 else 0)"
| "Number conv (JNumber x) = x"
| "Number conv v = conv v"

text \<open>A number known to be finite, read as a real.\<close>

fun toReal :: "jsnum \<Rightarrow> real" where
  "toReal (Fin x) = x"
| "toReal _ = 0"

subsection \<open>extractValidEmbeddings\<close>

record extraction =
  indices :: "nat list"
  vectors :: "real list list"
  dimension :: nat

text \<open>
  The body of the \<^verbatim>\<open>forEach\<close> callback; every \<^verbatim>\<open>return\<close> leaves the state as it is then.
  \<^verbatim>\<open>embedding.map(...)\<close> keeps the holes of \<^verbatim>\<open>embedding\<close> and \<^verbatim>\<open>.filter(...)\<close> passes over
  them, so \<^verbatim>\<open>normalized\<close> holds one entry for each element and none for a hole.
\<close>

definition extractStep :: "(jsval \<Rightarrow> jsnum) \<Rightarrow> extraction \<Rightarrow> nat \<times> SemanticNode \<Rightarrow> extraction" where
  "extractStep conv st p =
     (case p of (idx, item) \<Rightarrow>
       (case embedding item of
          JArray emb \<Rightarrow>
            if emb = [] then st
            else
              let normalized =
                    filter isFinite
                      (map (\<lambda>value. let num = Number conv value in if isFinite num then num else Fin 0)
                         (elementsOf emb))
              in
              if normalized = [] then st
              else
                let st1 = (if dimension st = 0 then st\<lparr>dimension := length normalized\<rparr> else st) in
                if dimension st1 = 0 then st1
                else
                  let vector =
                        (if length normalized = dimension st1 then normalized
                         else map (\<lambda>i. if i < length normalized \<and> isFinite (normalized ! i)
                                        then normalized ! i else Fin 0)
                                  [0..<dimension st1])
                  in
                  if \<not> list_all isFinite vector then st1
                  else st1\<lparr>indices := indices st1 @ [idx], vectors := vectors st1 @ [map toReal vector]\<rparr>
        | _ \<Rightarrow> st))"

definition extractValidEmbeddings :: "(jsval \<Rightarrow> jsnum) \<Rightarrow> SemanticNode list \<Rightarrow> extraction" where
  "extractValidEmbeddings conv data =
     foldl (extractStep conv) \<lparr>indices = [], vectors = [], dimension = 0\<rparr> (List.enumerate 0 data)"

subsection \<open>Facts about extractValidEmbeddings\<close>

text \<open>
  The descriptions used in the statements: the embeddings that are arrays with at least
  one element, the coercion of one entry, the coerced entries of an embedding, and the
  fitting of a coerced row to the dimension.
\<close>

definition hasElement :: "jsval \<Rightarrow> bool" where
  "hasElement v = (case v of JArray emb \<Rightarrow> elementsOf emb \<noteq> [] | _ \<Rightarrow> False)"

definition coerceEntry :: "(jsval \<Rightarrow> jsnum) \<Rightarrow> jsval \<Rightarrow> real" where
  "coerceEntry conv value = (case Number conv value of Fin x \<Rightarrow> x | _ \<Rightarrow> 0)"

definition coercedRow :: "(jsval \<Rightarrow> jsnum) \<Rightarrow> jsval \<Rightarrow> real list" where
  "coercedRow conv v = (case v of JArray emb \<Rightarrow> map (coerceEntry conv) (elementsOf emb) | _ \<Rightarrow> [])"

lemma normalized_eq:
  "filter isFinite (map (\<lambda>value. if isFinite (Number conv value) then Number conv value else Fin 0) emb)
   = map (\<lambda>v. Fin (coerceEntry conv v)) emb"
  by (induction emb) (auto simp: isFinite_def coerceEntry_def split: jsnum.splits)

lemma elementsOf_Nil: "elementsOf [] = []"
  by (simp add: elementsOf_def)

definition fitRow :: "nat \<Rightarrow> real list \<Rightarrow> real list" where
  "fitRow d xs = (if length xs = d then xs else map (\<lambda>i. if i < length xs then xs ! i else 0) [0..<d])"

definition fitVector :: "nat \<Rightarrow> jsnum list \<Rightarrow> jsnum list" where
  "fitVector d n = (if length n = d then n
     else map (\<lambda>i. if i < length n \<and> isFinite (n ! i) then n ! i else Fin 0) [0..<d])"

lemma fitVector_finite: "list_all isFinite (fitVector d (map (\<lambda>v. Fin (f v)) emb))"
  by (auto simp: fitVector_def list_all_iff isFinite_def)

lemma fitVector_toReal: "map toReal (fitVector d (map (\<lambda>v. Fin (f v)) emb)) = fitRow d (map f emb)"
  by (auto simp: fitVector_def fitRow_def isFinite_def)

lemma extractStep_unfold:
  "extractStep conv st (idx, item) =
     (if hasElement (embedding item) then
        let st1 = (if dimension st = 0
                   then st\<lparr>dimension := length (coercedRow conv (embedding item))\<rparr> else st)
        in st1\<lparr>indices := indices st1 @ [idx],
               vectors := vectors st1 @ [fitRow (dimension st1) (coercedRow conv (embedding item))]\<rparr>
      else st)"
proof (cases "embedding item")
  case (JArray emb)
  show ?thesis
  proof (cases "elementsOf emb = []")
    case True
    with JArray show ?thesis
      by (cases "emb = []") (simp_all add: extractStep_def hasElement_def)
  next
    case False
    then have ne: "emb \<noteq> []" by (auto simp: elementsOf_Nil)
    let ?n = "map (\<lambda>v. Fin (coerceEntry conv v)) (elementsOf emb)"
    let ?st1 = "if dimension st = 0 then st\<lparr>dimension := length ?n\<rparr> else st"
    have d: "dimension ?st1 \<noteq> 0" using False by simp
    have "extractStep conv st (idx, item) =
        ?st1\<lparr>indices := indices ?st1 @ [idx],
             vectors := vectors ?st1 @ [map toReal (fitVector (dimension ?st1) ?n)]\<rparr>"
      using JArray False ne d fitVector_finite[of "dimension ?st1" "coerceEntry conv" "elementsOf emb"]
      unfolding extractStep_def Let_def normalized_eq fitVector_def[symmetric]
      by (simp only: jsval.case prod.case if_False if_True not_True_eq_False not_not map_is_Nil_conv)
    then show ?thesis
      using JArray False
      by (simp only: fitVector_toReal Let_def jsval.case if_True hasElement_def coercedRow_def
          simp_thms length_map)
  qed
qed (simp_all add: extractStep_def hasElement_def)


lemma foldl_extract_indices:
  "indices (foldl (extractStep conv) st (List.enumerate n xs)) =
     indices st @ map fst (filter (\<lambda>p. hasElement (embedding (snd p))) (List.enumerate n xs))"
proof (induction xs arbitrary: st n)
  case Nil
  then show ?case by simp
next
  case (Cons x xs)
  show ?case
    by (simp add: Cons.IH extractStep_unfold Let_def)
qed

lemma map_fst_filter_zip:
  "list_all2 (\<lambda>i x. Q i = P x) js xs \<Longrightarrow>
     map fst (filter (\<lambda>p. P (snd p)) (zip js xs)) = filter Q js"
  by (induction js xs rule: list_all2_induct) auto

lemma map_fst_filter_enumerate:
  "map fst (filter (\<lambda>p. P (snd p)) (List.enumerate 0 xs)) = filter (\<lambda>i. P (xs ! i)) [0..<length xs]"
proof -
  have "list_all2 (\<lambda>i x. P (xs ! i) = P x) [0..<length xs] xs"
    by (simp add: list_all2_conv_all_nth)
  from map_fst_filter_zip[OF this] show ?thesis
    by (simp add: enumerate_eq_zip)
qed

lemma extract_indices:
  "indices (extractValidEmbeddings conv data) =
     filter (\<lambda>i. hasElement (embedding (data ! i))) [0..<length data]"
  using map_fst_filter_enumerate[where P = "\<lambda>x. hasElement (embedding x)" and xs = data]
  by (simp add: extractValidEmbeddings_def foldl_extract_indices)

definition rowsOk :: "extraction \<Rightarrow> bool" where
  "rowsOk st = (length (vectors st) = length (indices st) \<and>
      (\<forall>v \<in> set (vectors st). length v = dimension st) \<and>
      (vectors st \<noteq> [] \<longrightarrow> 0 < dimension st))"

lemma length_fitRow: "length (fitRow d xs) = d"
  by (simp add: fitRow_def)

lemma extractStep_rowsOk: "rowsOk st \<Longrightarrow> rowsOk (extractStep conv st (idx, item))"
  by (auto simp: extractStep_unfold rowsOk_def Let_def length_fitRow hasElement_def coercedRow_def
      split: jsval.splits)

lemma foldl_extract_rowsOk: "rowsOk st \<Longrightarrow> rowsOk (foldl (extractStep conv) st ps)"
proof (induction ps arbitrary: st)
  case Nil
  then show ?case by simp
next
  case (Cons p ps)
  then show ?case by (cases p) (simp add: extractStep_rowsOk)
qed

lemma extract_rowsOk: "rowsOk (extractValidEmbeddings conv data)"
  unfolding extractValidEmbeddings_def
  by (rule foldl_extract_rowsOk) (simp add: rowsOk_def)

text \<open>
  The dimension is fixed by the first record that is kept: \<open>firstDimension conv d items\<close> is
  the dimension after the records \<open>items\<close>, when it was \<open>d\<close> before them.
\<close>

definition firstDimension :: "(jsval \<Rightarrow> jsnum) \<Rightarrow> nat \<Rightarrow> SemanticNode list \<Rightarrow> nat" where
  "firstDimension conv d items =
     (if d \<noteq> 0 then d
      else case filter (\<lambda>item. hasElement (embedding item)) items of
             [] \<Rightarrow> 0
           | item # _ \<Rightarrow> length (coercedRow conv (embedding item)))"

lemma coercedRow_nonempty: "hasElement v \<Longrightarrow> coercedRow conv v \<noteq> []"
  by (auto simp: hasElement_def coercedRow_def split: jsval.splits)

lemma firstDimension_kept:
  "hasElement (embedding item) \<Longrightarrow> d = 0 \<Longrightarrow>
     firstDimension conv d (item # items) = length (coercedRow conv (embedding item))"
  by (simp add: firstDimension_def)

lemma firstDimension_fixed: "d \<noteq> 0 \<Longrightarrow> firstDimension conv d items = d"
  by (simp add: firstDimension_def)

lemma firstDimension_dropped:
  "\<not> hasElement (embedding item) \<Longrightarrow> firstDimension conv d (item # items) = firstDimension conv d items"
  by (simp add: firstDimension_def)

lemma foldl_extract_rows:
  "dimension (foldl (extractStep conv) st ps) = firstDimension conv (dimension st) (map snd ps)
   \<and> vectors (foldl (extractStep conv) st ps) =
       vectors st @ map (\<lambda>p. fitRow (firstDimension conv (dimension st) (map snd ps))
                                (coercedRow conv (embedding (snd p))))
                      (filter (\<lambda>p. hasElement (embedding (snd p))) ps)"
proof (induction ps arbitrary: st)
  case Nil
  show ?case by (simp add: firstDimension_def)
next
  case (Cons p ps)
  obtain idx item where p: "p = (idx, item)" by (cases p)
  show ?case
  proof (cases "hasElement (embedding item)")
    case False
    then have "extractStep conv st (idx, item) = st" by (simp add: extractStep_unfold)
    with False show ?thesis
      using Cons.IH[of st] by (simp add: p firstDimension_dropped)
  next
    case True
    define row where "row = coercedRow conv (embedding item)"
    define d where "d = (if dimension st = 0 then length row else dimension st)"
    define st' where "st' = extractStep conv st (idx, item)"
    have pos: "d \<noteq> 0"
      using coercedRow_nonempty[OF True, of conv] by (simp add: d_def row_def)
    have dim': "dimension st' = d" and vec': "vectors st' = vectors st @ [fitRow d row]"
      using True by (simp_all add: st'_def d_def row_def extractStep_unfold Let_def)
    have fd: "firstDimension conv (dimension st) (map snd (p # ps)) = d"
      using True by (simp add: p firstDimension_def d_def row_def)
    have fd': "firstDimension conv (dimension st') (map snd ps) = d"
      unfolding dim' by (rule firstDimension_fixed[OF pos])
    from Cons.IH[of st'] have IH: "dimension (foldl (extractStep conv) st' ps) = d"
      "vectors (foldl (extractStep conv) st' ps) =
         (vectors st @ [fitRow d row]) @
         map (\<lambda>p. fitRow d (coercedRow conv (embedding (snd p))))
           (filter (\<lambda>p. hasElement (embedding (snd p))) ps)"
      unfolding fd' vec' by blast+
    have flt: "filter (\<lambda>p. hasElement (embedding (snd p))) (p # ps)
        = p # filter (\<lambda>p. hasElement (embedding (snd p))) ps"
      using True by (simp add: p)
    have step: "foldl (extractStep conv) st (p # ps) = foldl (extractStep conv) st' ps"
      by (simp add: st'_def p)
    show ?thesis
      unfolding step fd flt IH by (simp add: p row_def)
  qed
qed

lemma map_snd_filter_enumerate:
  "map (\<lambda>p. f (snd p)) (filter (\<lambda>p. P (snd p)) (List.enumerate 0 xs))
     = map (\<lambda>i. f (xs ! i)) (filter (\<lambda>i. P (xs ! i)) [0..<length xs])"
proof -
  have "map (\<lambda>p. f (snd p)) (filter (\<lambda>p. P (snd p)) (List.enumerate 0 xs))
      = map (\<lambda>p. f (xs ! fst p)) (filter (\<lambda>p. P (snd p)) (List.enumerate 0 xs))"
    by (rule map_cong) (auto simp: enumerate_eq_zip in_set_zip)
  also have "\<dots> = map (\<lambda>i. f (xs ! i)) (map fst (filter (\<lambda>p. P (snd p)) (List.enumerate 0 xs)))"
    by (simp add: comp_def)
  finally show ?thesis
    by (simp only: map_fst_filter_enumerate)
qed

lemma filter_items_indices:
  "filter P xs = map (\<lambda>i. xs ! i) (filter (\<lambda>i. P (xs ! i)) [0..<length xs])"
proof -
  have "map (\<lambda>i. xs ! i) (filter (\<lambda>i. P (xs ! i)) [0..<length xs])
      = filter P (map (\<lambda>i. xs ! i) [0..<length xs])"
    by (simp add: filter_map comp_def)
  then show ?thesis by (simp add: map_nth)
qed

lemma extract_rows:
  "dimension (extractValidEmbeddings conv data) = firstDimension conv 0 data"
  "vectors (extractValidEmbeddings conv data) =
     map (\<lambda>i. fitRow (firstDimension conv 0 data) (coercedRow conv (embedding (data ! i))))
       (filter (\<lambda>i. hasElement (embedding (data ! i))) [0..<length data])"
proof -
  have sn: "map snd (List.enumerate 0 data) = data"
    by (simp add: enumerate_eq_zip)
  from foldl_extract_rows[of conv "\<lparr>indices = [], vectors = [], dimension = 0\<rparr>" "List.enumerate 0 data"]
  show "dimension (extractValidEmbeddings conv data) = firstDimension conv 0 data"
    by (simp add: extractValidEmbeddings_def sn)
  from foldl_extract_rows[of conv "\<lparr>indices = [], vectors = [], dimension = 0\<rparr>" "List.enumerate 0 data"]
  have "vectors (extractValidEmbeddings conv data) =
      map (\<lambda>p. fitRow (firstDimension conv 0 data) (coercedRow conv (embedding (snd p))))
        (filter (\<lambda>p. hasElement (embedding (snd p))) (List.enumerate 0 data))"
    by (simp add: extractValidEmbeddings_def sn)
  then show "vectors (extractValidEmbeddings conv data) =
     map (\<lambda>i. fitRow (firstDimension conv 0 data) (coercedRow conv (embedding (data ! i))))
       (filter (\<lambda>i. hasElement (embedding (data ! i))) [0..<length data])"
    by (simp only: map_snd_filter_enumerate[where f = "\<lambda>x. fitRow (firstDimension conv 0 data) (coercedRow conv (embedding x))"
          and P = "\<lambda>x. hasElement (embedding x)"])
qed

text \<open>
  A conversion under which no string, array or object reads as a number; it is
  \<^verbatim>\<open>Number\<close> on inputs that hold none that does, such as the string \<^verbatim>\<open>"high"\<close>.
\<close>

definition notNumeric :: "jsval \<Rightarrow> jsnum" where
  "notNumeric v = NaN"

definition node :: "jsval \<Rightarrow> SemanticNode" where
  "node e = \<lparr>key = [], region = [], embedding = e, volatility = 0, velocity = 0\<rparr>"


text \<open>A record whose embedding is an array of finite numbers.\<close>

definition numbers :: "real list \<Rightarrow> jsval" where
  "numbers xs = JArray (map (\<lambda>x. JNumber (Fin x)) xs)"

text \<open>The batch of the trivial K-Means scenario, and its matrix.\<close>

definition trivialBatch :: "SemanticNode list" where
  "trivialBatch = [node (numbers [0, 0]), node (numbers [0, 0]), node (numbers [10, 10]), node (numbers [10, 10])]"

definition trivialRows :: "real list list" where
  "trivialRows = [[0, 0], [0, 0], [10, 10], [10, 10]]"

text \<open>A run in which every call of \<^verbatim>\<open>Math.random()\<close> returns one half.\<close>

definition halves :: "nat \<Rightarrow> real" where
  "halves n = 1 / 2"

text \<open>Two runs of \<^verbatim>\<open>Math.random()\<close>: the draws alternate between 0.3 and 0.4, in either order.\<close>

definition drawsA :: "nat \<Rightarrow> real" where
  "drawsA n = (if even n then 3 / 10 else 2 / 5)"

definition drawsB :: "nat \<Rightarrow> real" where
  "drawsB n = (if even n then 2 / 5 else 3 / 10)"

text \<open>A run that agrees with \<open>drawsA\<close> on its first four draws only.\<close>

definition drawsA4 :: "nat \<Rightarrow> real" where
  "drawsA4 n = (if n < 4 then drawsA n else 0)"

text \<open>The batch of the rows \<open>[0, 0]\<close> and \<open>[3, 4]\<close>: both coordinates vary, along one line.\<close>

definition lineBatch :: "SemanticNode list" where
  "lineBatch = [node (numbers [0, 0]), node (numbers [3, 4])]"

definition lineCovariance :: "real list list" where
  "lineCovariance = [[9 / 2, 6], [6, 8]]"

text \<open>The four unit points on the axes: the covariance matrix is two thirds of the identity.\<close>

definition crossBatch :: "SemanticNode list" where
  "crossBatch = [node (numbers [1, 0]), node (numbers [- 1, 0]), node (numbers [0, 1]), node (numbers [0, - 1])]"

definition crossCovariance :: "real list list" where
  "crossCovariance = [[2 / 3, 0], [0, 2 / 3]]"

text \<open>Three one-dimensional rows, two of them equal.\<close>

definition threeRows :: "SemanticNode list" where
  "threeRows = [node (numbers [0]), node (numbers [0]), node (numbers [9])]"

text \<open>Three records, the second without an embedding.\<close>

definition mixedBatch :: "SemanticNode list" where
  "mixedBatch = [node (numbers [0]), node JUndefined, node (numbers [2])]"

text \<open>
  Four rows of one entry near \<open>2\<^sup>5\<^sup>1\<close>, where the doubles are the multiples of one half:
  \<open>2\<^sup>5\<^sup>1 + 1\<close>, \<open>2\<^sup>5\<^sup>1 + 101\<close>, \<open>2\<^sup>5\<^sup>1 + 0.5\<close> and \<open>2\<^sup>5\<^sup>1 + 1.5\<close>.
\<close>

definition roundingBatch :: "SemanticNode list" where
  "roundingBatch =
     [node (numbers [2251799813685249]), node (numbers [2251799813685349]),
      node (numbers [4503599627370497 / 2]), node (numbers [4503599627370499 / 2])]"

definition roundingRows :: "real list list" where
  "roundingRows = [[2251799813685249], [2251799813685349], [4503599627370497 / 2], [4503599627370499 / 2]]"

text \<open>The rows \<open>[0]\<close>, \<open>[10]\<close>, \<open>[1]\<close> and \<open>[2]\<close>.\<close>

definition stepBatch :: "SemanticNode list" where
  "stepBatch = [node (numbers [0]), node (numbers [10]), node (numbers [1]), node (numbers [2])]"

definition stepRows :: "real list list" where
  "stepRows = [[0], [10], [1], [2]]"

subsection \<open>Two facts about lists\<close>

lemma length_foldl_preserve:
  assumes "\<And>acc p. length (f acc p) = length acc"
  shows "length (foldl f xs ps) = length xs"
  by (induction ps arbitrary: xs) (simp_all add: assms)

lemma list_update_same: "\<forall>l \<in> set ls. l = x \<Longrightarrow> ls[i := x] = ls"
  by (cases "i < length ls") (simp_all add: list_update_same_conv list_update_beyond)

subsection \<open>Shared pieces of the three clustering functions\<close>

text \<open>
  \<^verbatim>\<open>euclideanDistance(a, b)\<close> runs over the indices of \<open>a\<close>. Every call in the engine
  passes two rows of the dimension fixed by \<^verbatim>\<open>extractValidEmbeddings\<close>.
\<close>

definition euclideanDistance :: "real list \<Rightarrow> real list \<Rightarrow> real" where
  "euclideanDistance a b = sqrt (\<Sum>i\<leftarrow>[0..<length a]. (a ! i - b ! i) * (a ! i - b ! i))"

record ClusteringResult =
  labels :: "int list"
  centroids :: "real list list"
  iterations :: "nat option"
  inertia :: "real option"
  noiseCount :: "nat option"

text \<open>
  The closing lines of each function: \<^verbatim>\<open>fullLabels\<close> starts as \<open>-1\<close> everywhere and takes,
  at each kept record, the label of its row.
\<close>

definition fullLabels :: "nat \<Rightarrow> nat list \<Rightarrow> int list \<Rightarrow> int list" where
  "fullLabels n idxs ls =
     foldl (\<lambda>fl p. case p of (vectorIdx, dataIdx) \<Rightarrow> fl[dataIdx := ls ! vectorIdx])
       (replicate n (- 1)) (List.enumerate 0 idxs)"

text \<open>
  \<^verbatim>\<open>Number(value.toFixed(digits))\<close>: the nearest multiple of \<open>10\<^sup>-\<^sup>d\<close>, the larger one
  at a tie, on the absolute value; from \<open>10\<^sup>2\<^sup>1\<close> on \<^verbatim>\<open>toFixed\<close> prints the number itself.
\<close>

definition toFixed :: "real \<Rightarrow> nat \<Rightarrow> real" where
  "toFixed x digits =
     (if 10 ^ 21 \<le> \<bar>x\<bar> then x
      else if x < 0 then - (real_of_int \<lfloor>(- x) * 10 ^ digits + 1 / 2\<rfloor> / 10 ^ digits)
      else real_of_int \<lfloor>x * 10 ^ digits + 1 / 2\<rfloor> / 10 ^ digits)"

subsection \<open>createSeededRandom\<close>

text \<open>
  The closure keeps \<open>s\<close>, after the first call an unsigned 32-bit value. \<^verbatim>\<open>s << 13\<close> and
  \<^verbatim>\<open>s << 5\<close> are shifts of the 32-bit word, \<^verbatim>\<open>s >> 17\<close> is the sign-propagating shift,
  \<^verbatim>\<open>>>> 0\<close> reads the 32 bits as unsigned. The returned value is
  \<^verbatim>\<open>(s & 0xffffffff) / 0x100000000\<close>, and \<^verbatim>\<open>&\<close> gives a signed 32-bit integer.
\<close>

definition createSeededRandom :: "int \<Rightarrow> 32 word" where
  "createSeededRandom seed = word_of_int seed"

definition rand :: "32 word \<Rightarrow> real \<times> 32 word" where
  "rand s =
     (let s1 = s XOR push_bit 13 s;
          s2 = s1 XOR signed_drop_bit 17 s1;
          s3 = s2 XOR push_bit 5 s2
      in (real_of_int (sint s3) / 4294967296, s3))"

subsection \<open>runKMeans\<close>

text \<open>
  The initialisation loop. \<open>used\<close> is the set \<^verbatim>\<open>usedIndices\<close>; an index outside the
  matrix (the generator also returns negative values) reads \<^verbatim>\<open>undefined\<close>, fails
  \<^verbatim>\<open>Array.isArray\<close> and is skipped after it has been recorded as used.
\<close>

function chooseCentroids ::
  "real list list \<Rightarrow> real \<Rightarrow> nat \<Rightarrow> nat \<Rightarrow> 32 word \<Rightarrow> int list \<Rightarrow> real list list \<Rightarrow> real list list" where
  "chooseCentroids vs targetCentroids maxAttempts safetyCounter s used cs =
     (if real (length cs) < targetCentroids \<and> safetyCounter < maxAttempts then
        (case rand s of (r, s') \<Rightarrow>
           let index = \<lfloor>r * real (length vs)\<rfloor> in
           if index \<in> set used then
             chooseCentroids vs targetCentroids maxAttempts (safetyCounter + 1) s' used cs
           else if index < 0 \<or> int (length vs) \<le> index \<or> vs ! nat index = [] then
             chooseCentroids vs targetCentroids maxAttempts (safetyCounter + 1) s' (index # used) cs
           else
             chooseCentroids vs targetCentroids maxAttempts (safetyCounter + 1) s' (index # used)
               (cs @ [vs ! nat index]))
      else cs)"
  by pat_completeness auto
termination
  by (relation "measure (\<lambda>(vs, targetCentroids, maxAttempts, safetyCounter, s, used, cs).
        maxAttempts - safetyCounter)") auto

declare chooseCentroids.simps [simp del]

text \<open>
  The search for the nearest centroid of one row: \<open>best\<close> is the pair
  \<^verbatim>\<open>(bestCluster, bestDistance)\<close>, and \<open>None\<close> is the initial \<^verbatim>\<open>Infinity\<close>.
\<close>

fun nearestFrom :: "real list \<Rightarrow> real list list \<Rightarrow> nat \<Rightarrow> nat \<times> real option \<Rightarrow> nat \<times> real option" where
  "nearestFrom v [] cluster best = best"
| "nearestFrom v (c # cs) cluster best =
     (let distance = euclideanDistance v c in
      nearestFrom v cs (cluster + 1)
        (if (case snd best of None \<Rightarrow> True | Some bestDistance \<Rightarrow> distance < bestDistance)
         then (cluster, Some distance) else best))"

definition bestCluster :: "real list list \<Rightarrow> real list \<Rightarrow> nat" where
  "bestCluster cs v = fst (nearestFrom v cs 0 (0, None))"

text \<open>The two accumulation loops over the rows, and the write-back into the centroids.\<close>

definition clusterCounts :: "nat \<Rightarrow> nat list \<Rightarrow> nat list" where
  "clusterCounts k ls = foldl (\<lambda>counts cluster. counts[cluster := counts ! cluster + 1]) (replicate k 0) ls"

definition clusterSums :: "nat \<Rightarrow> nat \<Rightarrow> real list list \<Rightarrow> nat list \<Rightarrow> real list list" where
  "clusterSums k dimn vs ls =
     foldl (\<lambda>totals i.
              totals[ls ! i := foldl (\<lambda>row d. row[d := row ! d + vs ! i ! d]) (totals ! (ls ! i)) [0..<dimn]])
       (replicate k (replicate dimn 0)) [0..<length vs]"

definition updateCentroids :: "nat \<Rightarrow> real list list \<Rightarrow> nat list \<Rightarrow> real list list \<Rightarrow> real list list" where
  "updateCentroids dimn vs ls cs =
     (let totals = clusterSums (length cs) dimn vs ls;
          counts = clusterCounts (length cs) ls
      in map (\<lambda>cluster.
                if counts ! cluster = 0 then cs ! cluster
                else foldl (\<lambda>c d. c[d := totals ! cluster ! d / real (counts ! cluster)]) (cs ! cluster) [0..<dimn])
             [0..<length cs])"

text \<open>
  The main loop. One round assigns every row, stops if no label changed, and otherwise
  recomputes the centroids; the result carries the labels, the centroids and
  \<^verbatim>\<open>iterations\<close>.
\<close>

function kmeansLoop ::
  "real list list \<Rightarrow> nat \<Rightarrow> nat \<Rightarrow> nat \<Rightarrow> nat list \<Rightarrow> real list list \<Rightarrow> nat list \<times> real list list \<times> nat" where
  "kmeansLoop vs dimn maxIterations its ls cs =
     (if its < maxIterations then
        (let ls' = map (bestCluster cs) vs in
         if ls' = ls then (ls', cs, its)
         else kmeansLoop vs dimn maxIterations (its + 1) ls' (updateCentroids dimn vs ls' cs))
      else (ls, cs, its))"
  by pat_completeness auto
termination
  by (relation "measure (\<lambda>(vs, dimn, maxIterations, its, ls, cs). maxIterations - its)") auto

declare kmeansLoop.simps [simp del]

definition inertiaOf :: "real list list \<Rightarrow> nat list \<Rightarrow> real list list \<Rightarrow> real" where
  "inertiaOf vs ls cs = (\<Sum>i\<leftarrow>[0..<length vs]. (euclideanDistance (vs ! i) (cs ! (ls ! i))) ^ 2)"

definition allNoise :: "nat \<Rightarrow> ClusteringResult" where
  "allNoise n = \<lparr>labels = replicate n (- 1), centroids = [], iterations = Some 0,
                 inertia = Some 0, noiseCount = None\<rparr>"

definition runKMeans :: "(jsval \<Rightarrow> jsnum) \<Rightarrow> SemanticNode list \<Rightarrow> real \<Rightarrow> nat \<Rightarrow> ClusteringResult" where
  "runKMeans conv data k maxIterations =
     (if data = [] then
        \<lparr>labels = [], centroids = [], iterations = Some 0, inertia = Some 0, noiseCount = None\<rparr>
      else
        let ex = extractValidEmbeddings conv data;
            vs = vectors ex
        in
        if vs = [] \<or> dimension ex = 0 then allNoise (length data)
        else
          let targetCentroids = min k (real (length vs));
              maxAttempts = (if targetCentroids = 0 then 0 else length vs * 4);
              cs0 = chooseCentroids vs targetCentroids maxAttempts 0 (createSeededRandom 1993) [] []
          in
          if cs0 = [] then allNoise (length data)
          else
            (case kmeansLoop vs (dimension ex) maxIterations 0 (replicate (length vs) 0) cs0 of
               (ls, cs, its) \<Rightarrow>
                 \<lparr>labels = fullLabels (length data) (indices ex) (map int ls),
                  centroids = cs,
                  iterations = Some its,
                  inertia = Some (toFixed (inertiaOf vs ls cs) 3),
                  noiseCount = None\<rparr>))"

subsection \<open>runAgglomerative\<close>

text \<open>
  The cache \<^verbatim>\<open>distanceCache\<close>. Its key is the string
  \<^verbatim>\<open>clusterA.join("-") + "::" + clusterB.join("-")\<close>; two pairs of index lists give the
  same string only if they are the same pair, so the key is the pair itself.
\<close>

type_synonym distanceCache = "nat list \<times> nat list \<rightharpoonup> real"

definition clusterDistance ::
  "real list list \<Rightarrow> distanceCache \<Rightarrow> nat list \<Rightarrow> nat list \<Rightarrow> real \<times> distanceCache" where
  "clusterDistance vs cache clusterA clusterB =
     (case cache (clusterA, clusterB) of
        Some cached \<Rightarrow> (cached, cache)
      | None \<Rightarrow>
          let total = (\<Sum>indexA\<leftarrow>clusterA. \<Sum>indexB\<leftarrow>clusterB.
                          euclideanDistance (vs ! indexA) (vs ! indexB));
              count = length clusterA * length clusterB;
              distance = total / (if count = 0 then 1 else real count)
          in (distance, cache((clusterA, clusterB) \<mapsto> distance)))"

text \<open>
  One pass of the two nested \<^verbatim>\<open>for\<close> loops, over the pairs \<open>i < j\<close> in their order.
  The state is \<^verbatim>\<open>(bestI, bestJ, bestDistance)\<close> and the cache.
\<close>

definition pairStep ::
  "real list list \<Rightarrow> nat list list \<Rightarrow> (nat \<times> nat \<times> real option) \<times> distanceCache \<Rightarrow> nat \<times> nat
     \<Rightarrow> (nat \<times> nat \<times> real option) \<times> distanceCache" where
  "pairStep vs clusters st p =
     (case clusterDistance vs (snd st) (clusters ! fst p) (clusters ! snd p) of
        (distance, cache') \<Rightarrow>
          (if (case snd (snd (fst st)) of None \<Rightarrow> True | Some bestDistance \<Rightarrow> distance < bestDistance)
           then (fst p, snd p, Some distance) else fst st,
           cache'))"

definition closestPair ::
  "real list list \<Rightarrow> nat list list \<Rightarrow> distanceCache \<Rightarrow> (nat \<times> nat \<times> real option) \<times> distanceCache" where
  "closestPair vs clusters cache =
     foldl (pairStep vs clusters) ((0, 1, None), cache)
       (concat (map (\<lambda>i. map (\<lambda>j. (i, j)) [i + 1..<length clusters]) [0..<length clusters]))"

text \<open>\<^verbatim>\<open>xs.splice(start, deleteCount, ...items)\<close>, for its effect on \<open>xs\<close>.\<close>

definition splice :: "nat \<Rightarrow> nat \<Rightarrow> 'a list \<Rightarrow> 'a list \<Rightarrow> 'a list" where
  "splice start deleteCount items xs = take start xs @ items @ drop (start + deleteCount) xs"

lemma pairStep_order:
  "fst (fst st) < fst (snd (fst st)) \<Longrightarrow> fst p < snd p \<Longrightarrow>
     fst (fst (pairStep vs clusters st p)) < fst (snd (fst (pairStep vs clusters st p)))"
  by (simp add: pairStep_def split: prod.splits)

lemma foldl_pairStep_order:
  "fst (fst st) < fst (snd (fst st)) \<Longrightarrow> \<forall>p \<in> set ps. fst p < snd p \<Longrightarrow>
     fst (fst (foldl (pairStep vs clusters) st ps)) < fst (snd (fst (foldl (pairStep vs clusters) st ps)))"
  by (induction ps arbitrary: st) (simp_all add: pairStep_order)

lemma closestPair_order:
  "closestPair vs clusters cache = ((bestI, bestJ, bd), cache') \<Longrightarrow> bestI < bestJ"
  using foldl_pairStep_order[of "((0, 1, None), cache)"
      "concat (map (\<lambda>i. map (\<lambda>j. (i, j)) [i + 1..<length clusters]) [0..<length clusters])" vs clusters]
  by (auto simp: closestPair_def)

text \<open>
  The merging loop. With fewer than two clusters \<^verbatim>\<open>clusters[bestJ]\<close> is \<^verbatim>\<open>undefined\<close> and
  the spread \<^verbatim>\<open>[...clusters[bestI], ...clusters[bestJ]]\<close> throws a \<^verbatim>\<open>TypeError\<close>: the
  result \<open>None\<close>.
\<close>

function agglomerate ::
  "real list list \<Rightarrow> real \<Rightarrow> nat list list \<Rightarrow> distanceCache \<Rightarrow> nat list list option" where
  "agglomerate vs targetClusters clusters cache =
     (if targetClusters < real (length clusters) then
        (case closestPair vs clusters cache of
           ((bestI, bestJ, bestDistance), cache') \<Rightarrow>
             if length clusters \<le> bestJ then None
             else
               let merged = clusters ! bestI @ clusters ! bestJ;
                   clusters1 = splice bestJ 1 [] clusters;
                   clusters2 = splice bestI 1 [merged] clusters1
               in agglomerate vs targetClusters clusters2 cache')
      else Some clusters)"
  by pat_completeness auto
termination
proof (relation "measure (\<lambda>(vs, targetClusters, clusters, cache). length clusters)", goal_cases)
  case 1
  show ?case by simp
next
  case (2 vs targetClusters clusters cache x y xa ya xb yb xc xd xe)
  then have "closestPair vs clusters cache = ((xa, xb, yb), y)"
    by simp
  then have "xa < xb"
    by (rule closestPair_order)
  with 2 show ?case
    by (simp add: splice_def)
qed

declare agglomerate.simps [simp del]


text \<open>
  The mean of the rows of one cluster, as both \<^verbatim>\<open>runAgglomerative\<close> and \<^verbatim>\<open>runDbscan\<close>
  compute it: the entries are summed into a zero vector of the dimension and then divided
  by the number of members.
\<close>

definition meanOf :: "nat \<Rightarrow> real list list \<Rightarrow> nat list \<Rightarrow> real list" where
  "meanOf dimn vs members =
     map (\<lambda>total. total / real (length members))
       (foldl (\<lambda>centroid index.
                 foldl (\<lambda>centroid p. case p of (d, value) \<Rightarrow> centroid[d := centroid ! d + value])
                   centroid (List.enumerate 0 (vs ! index)))
          (replicate dimn 0) members)"

definition clusterLabels :: "nat \<Rightarrow> nat list list \<Rightarrow> nat list" where
  "clusterLabels n clusters =
     foldl (\<lambda>ls p. case p of (clusterIdx, cluster) \<Rightarrow>
              foldl (\<lambda>ls nodeIdx. ls[nodeIdx := clusterIdx]) ls cluster)
       (replicate n 0) (List.enumerate 0 clusters)"

definition noClusters :: "nat \<Rightarrow> ClusteringResult" where
  "noClusters n = \<lparr>labels = replicate n (- 1), centroids = [], iterations = None,
                   inertia = None, noiseCount = None\<rparr>"

definition runAgglomerative ::
  "(jsval \<Rightarrow> jsnum) \<Rightarrow> SemanticNode list \<Rightarrow> real \<Rightarrow> ClusteringResult option" where
  "runAgglomerative conv data targetClusters =
     (if data = [] then Some (noClusters 0)
      else
        let ex = extractValidEmbeddings conv data;
            vs = vectors ex
        in
        if vs = [] \<or> dimension ex = 0 then Some (noClusters (length data))
        else
          let clusters = map (\<lambda>idx. [idx]) [0..<length vs] in
          if targetClusters < 1 then Some (noClusters (length data))
          else
            (case agglomerate vs targetClusters clusters Map.empty of
               None \<Rightarrow> None
             | Some final \<Rightarrow>
                 Some \<lparr>labels = fullLabels (length data) (indices ex)
                                  (map int (clusterLabels (length vs) final)),
                       centroids = map (meanOf (dimension ex) vs) final,
                       iterations = None, inertia = None, noiseCount = None\<rparr>))"

subsection \<open>runDbscan\<close>

definition regionQuery :: "real list list \<Rightarrow> real \<Rightarrow> nat \<Rightarrow> nat list" where
  "regionQuery vs eps pointIdx =
     filter (\<lambda>i. euclideanDistance (vs ! pointIdx) (vs ! i) \<le> eps) [0..<length vs]"

text \<open>
  The inner \<^verbatim>\<open>while\<close> loop over the stack \<^verbatim>\<open>seeds\<close>; \<^verbatim>\<open>pop\<close> takes the last element.
  The array \<^verbatim>\<open>visited\<close> is the set of the indices it holds \<^verbatim>\<open>true\<close> at. An index outside
  the matrix reads as not visited, and \<^verbatim>\<open>regionQuery\<close> then reads the length of
  \<^verbatim>\<open>undefined\<close>, a \<^verbatim>\<open>TypeError\<close>: the result \<open>None\<close>.
\<close>

definition pushNew :: "nat list \<Rightarrow> nat list \<Rightarrow> nat list" where
  "pushNew seeds currentNeighbors =
     foldl (\<lambda>seeds neighborIdx. if neighborIdx \<in> set seeds then seeds else seeds @ [neighborIdx])
       seeds currentNeighbors"

lemma card_unvisited_less:
  assumes "current < (n::nat)" "current \<notin> visited"
  shows "card ({..<n} - visited) - Suc 0 < card ({..<n} - visited)"
proof -
  have "current \<in> {..<n} - visited" using assms by simp
  then have "{..<n} - visited \<noteq> {}" by blast
  moreover have "finite ({..<n} - visited)" by (rule finite_Diff) simp
  ultimately have "0 < card ({..<n} - visited)" by (simp only: card_gt_0_iff simp_thms)
  then show ?thesis by simp
qed

function expand ::
  "real list list \<Rightarrow> real \<Rightarrow> real \<Rightarrow> int \<Rightarrow> nat list \<Rightarrow> int list \<Rightarrow> nat set
     \<Rightarrow> (int list \<times> nat set) option" where
  "expand vs eps minPts clusterId seeds ls visited =
     (if seeds = [] then Some (ls, visited)
      else
        let current = last seeds;
            seeds1 = butlast seeds;
            ls' = (if ls ! current = - 1 then ls[current := clusterId] else ls)
        in
        if current \<notin> visited then
          if length vs \<le> current then None
          else
            let currentNeighbors = regionQuery vs eps current;
                seeds2 = (if minPts \<le> real (length currentNeighbors)
                          then pushNew seeds1 currentNeighbors else seeds1)
            in expand vs eps minPts clusterId seeds2 ls' (insert current visited)
        else expand vs eps minPts clusterId seeds1 ls' visited)"
  by pat_completeness auto
termination
  by (relation "measures
        [\<lambda>(vs, eps, minPts, clusterId, seeds, ls, visited). card ({..<length vs} - visited),
         \<lambda>(vs, eps, minPts, clusterId, seeds, ls, visited). length seeds]")
     (auto simp: card_unvisited_less not_le)

declare expand.simps [simp del]

text \<open>The outer \<^verbatim>\<open>for\<close> loop over the rows.\<close>

function dbscanLoop ::
  "real list list \<Rightarrow> real \<Rightarrow> real \<Rightarrow> nat \<Rightarrow> int list \<Rightarrow> nat set \<Rightarrow> nat
     \<Rightarrow> (int list \<times> nat) option" where
  "dbscanLoop vs eps minPts i ls visited clusterId =
     (if i < length vs then
        if i \<in> visited then dbscanLoop vs eps minPts (i + 1) ls visited clusterId
        else
          let neighbors = regionQuery vs eps i in
          if real (length neighbors) < minPts then
            dbscanLoop vs eps minPts (i + 1) (ls[i := - 1]) (insert i visited) clusterId
          else
            (case expand vs eps minPts (int clusterId) neighbors (ls[i := int clusterId])
                    (insert i visited) of
               None \<Rightarrow> None
             | Some (ls', visited') \<Rightarrow> dbscanLoop vs eps minPts (i + 1) ls' visited' (clusterId + 1))
      else Some (ls, clusterId))"
  by pat_completeness auto
termination
  by (relation "measure (\<lambda>(vs, eps, minPts, i, ls, visited, clusterId). length vs - i)") auto

declare dbscanLoop.simps [simp del]

definition dbscanCentroids :: "nat \<Rightarrow> real list list \<Rightarrow> int list \<Rightarrow> nat \<Rightarrow> real list list" where
  "dbscanCentroids dimn vs ls clusterId =
     concat (map (\<lambda>cluster.
                    let members = filter (\<lambda>i. ls ! i = int cluster) [0..<length vs] in
                    if members = [] then [] else [meanOf dimn vs members])
               [0..<clusterId])"

definition runDbscan ::
  "(jsval \<Rightarrow> jsnum) \<Rightarrow> SemanticNode list \<Rightarrow> real \<Rightarrow> real \<Rightarrow> ClusteringResult option" where
  "runDbscan conv data eps minPts =
     (if data = [] then
        Some \<lparr>labels = [], centroids = [], iterations = None, inertia = None, noiseCount = Some 0\<rparr>
      else
        let ex = extractValidEmbeddings conv data;
            vs = vectors ex
        in
        if vs = [] \<or> dimension ex = 0 then
          Some \<lparr>labels = replicate (length data) (- 1), centroids = [], iterations = None,
                inertia = None, noiseCount = Some (length data)\<rparr>
        else
          (case dbscanLoop vs eps minPts 0 (replicate (length vs) (- 1)) {} 0 of
             None \<Rightarrow> None
           | Some (ls, clusterId) \<Rightarrow>
               let full = fullLabels (length data) (indices ex) ls in
               Some \<lparr>labels = full,
                     centroids = dbscanCentroids (dimension ex) vs ls clusterId,
                     iterations = None, inertia = None,
                     noiseCount = Some (length (filter (\<lambda>label. label = - 1) full))\<rparr>))"

subsection \<open>Facts about the clustering loops\<close>

lemma extract_single:
  "extractValidEmbeddings conv [node (numbers [0])] = \<lparr>indices = [0], vectors = [[0]], dimension = 1\<rparr>"
  by (simp add: extractValidEmbeddings_def enumerate_eq_zip extractStep_unfold hasElement_def coercedRow_def
      elementsOf_def node_def numbers_def
      coerceEntry_def fitRow_def)

lemma dist_single: "euclideanDistance [0] [0] = 0"
  by (simp add: euclideanDistance_def)

lemma meanOf_single: "meanOf (Suc 0) [[0]] [0] = [0]"
  by (simp add: meanOf_def enumerate_eq_zip)

lemma euclideanDistance_nonneg: "0 \<le> euclideanDistance a b"
  by (auto simp: euclideanDistance_def intro!: sum_list_nonneg)

lemma regionQuery_negative: "eps < 0 \<Longrightarrow> regionQuery vs eps p = []"
proof -
  assume "eps < 0"
  then have "\<not> euclideanDistance a b \<le> eps" for a b
    using euclideanDistance_nonneg[of a b] by linarith
  then show ?thesis by (simp add: regionQuery_def)
qed

lemma dbscanLoop_negative_eps:
  assumes "eps < 0" "0 < minPts" "\<forall>l \<in> set ls. l = - 1"
  shows "dbscanLoop vs eps minPts i ls visited clusterId = Some (ls, clusterId)"
proof (induction "length vs - i" arbitrary: i visited)
  case 0
  then show ?case by (simp add: dbscanLoop.simps)
next
  case (Suc m)
  then have lt: "i < length vs" and m: "m = length vs - (i + 1)" by simp_all
  show ?case
    using lt assms Suc.hyps(1)[OF m]
    by (subst dbscanLoop.simps) (simp add: regionQuery_negative list_update_same)
qed

lemma foldl_fullLabels_noise:
  "\<forall>p \<in> set ps. ls ! fst p = x \<Longrightarrow>
     foldl (\<lambda>fl p. case p of (vectorIdx, dataIdx) \<Rightarrow> fl[dataIdx := ls ! vectorIdx]) (replicate n x) ps
       = replicate n x"
proof (induction ps)
  case Nil
  then show ?case by simp
next
  case (Cons p ps)
  then show ?case by (cases p) (simp add: list_update_same)
qed

lemma fullLabels_noise: "fullLabels n idxs (replicate (length idxs) (- 1)) = replicate n (- 1)"
  unfolding fullLabels_def
  by (rule foldl_fullLabels_noise) (auto simp: in_set_enumerate_eq)

subsection \<open>Facts about the labels\<close>

lemma fullLabels_snoc:
  "fullLabels n (idxs @ [x]) ls = (fullLabels n idxs ls)[x := ls ! length idxs]"
  by (simp add: fullLabels_def enumerate_append_eq)

lemma length_fullLabels: "length (fullLabels n idxs ls) = n"
proof -
  have "length (fullLabels n idxs ls) = length (replicate n (- 1 :: int))"
    unfolding fullLabels_def by (rule length_foldl_preserve) (simp add: split_beta)
  then show ?thesis by simp
qed

lemma fullLabels_values:
  "length idxs \<le> length ls \<Longrightarrow> set (fullLabels n idxs ls) \<subseteq> insert (- 1) (set ls)"
proof (induction idxs rule: rev_induct)
  case Nil
  then show ?case by (auto simp: fullLabels_def)
next
  case (snoc x xs)
  then have "ls ! length xs \<in> set ls" by simp
  moreover have "set ((fullLabels n xs ls)[x := ls ! length xs])
      \<subseteq> insert (ls ! length xs) (set (fullLabels n xs ls))"
    by (rule set_update_subset_insert)
  ultimately show ?case
    using snoc by (auto simp: fullLabels_snoc)
qed

lemma fullLabels_nth:
  "distinct idxs \<Longrightarrow> \<forall>i \<in> set idxs. i < n \<Longrightarrow> k < length idxs \<Longrightarrow>
     fullLabels n idxs ls ! (idxs ! k) = ls ! k"
proof (induction idxs rule: rev_induct)
  case Nil
  then show ?case by simp
next
  case (snoc x xs)
  show ?case
  proof (cases "k < length xs")
    case True
    with snoc.prems have "xs ! k \<noteq> x" by auto
    with True snoc show ?thesis
      by (simp add: fullLabels_snoc nth_append)
  next
    case False
    with snoc.prems have "k = length xs" by simp
    with snoc.prems show ?thesis
      by (simp add: fullLabels_snoc length_fullLabels)
  qed
qed

lemma fullLabels_covers:
  assumes "distinct idxs" "\<forall>i \<in> set idxs. i < n" "length ls = length idxs"
  shows "set ls \<subseteq> set (fullLabels n idxs ls)"
proof
  fix l assume "l \<in> set ls"
  then obtain k where k: "k < length ls" "ls ! k = l" by (auto simp: in_set_conv_nth)
  with assms have "fullLabels n idxs ls ! (idxs ! k) = l" "idxs ! k < n"
    by (simp_all add: fullLabels_nth)
  then show "l \<in> set (fullLabels n idxs ls)"
    by (metis length_fullLabels nth_mem)
qed

lemma extract_indices_ok:
  "distinct (indices (extractValidEmbeddings conv data))"
  "\<forall>i \<in> set (indices (extractValidEmbeddings conv data)). i < length data"
  by (simp_all add: extract_indices)

text \<open>K-Means.\<close>

lemma nearestFrom_range:
  "fst (nearestFrom v cs k best) = fst best \<or>
     (k \<le> fst (nearestFrom v cs k best) \<and> fst (nearestFrom v cs k best) < k + length cs)"
proof (induction cs arbitrary: k best)
  case Nil
  then show ?case by simp
next
  case (Cons c cs)
  let ?b = "if (case snd best of None \<Rightarrow> True | Some bestDistance \<Rightarrow> euclideanDistance v c < bestDistance)
        then (k, Some (euclideanDistance v c)) else best"
  from Cons.IH[of "k + 1" ?b] show ?case
    by (auto simp: Let_def split: if_splits)
qed

lemma bestCluster_less: "cs \<noteq> [] \<Longrightarrow> bestCluster cs v < length cs"
  using nearestFrom_range[of v cs 0 "(0, None)"] by (auto simp: bestCluster_def)

lemma length_updateCentroids: "length (updateCentroids dimn vs ls cs) = length cs"
  by (simp add: updateCentroids_def Let_def)

lemma kmeansLoop_labels:
  assumes "cs \<noteq> []" "\<forall>l \<in> set ls. l < length cs" "length ls = length vs"
    "kmeansLoop vs dimn maxIterations its ls cs = (ls', cs', its')"
  shows "length cs' = length cs \<and> (\<forall>l \<in> set ls'. l < length cs') \<and> length ls' = length vs"
  using assms
proof (induction vs dimn maxIterations its ls cs rule: kmeansLoop.induct)
  case (1 vs dimn maxIterations its ls cs)
  let ?ls = "map (bestCluster cs) vs"
  have new: "\<forall>l \<in> set ?ls. l < length cs"
    using "1.prems"(1) by (simp add: bestCluster_less)
  show ?case
  proof (cases "its < maxIterations")
    case False
    with "1.prems" have "ls' = ls" "cs' = cs"
      by (simp_all add: kmeansLoop.simps[of vs dimn maxIterations its])
    with "1.prems" show ?thesis by simp
  next
    case True
    show ?thesis
    proof (cases "?ls = ls")
      case same: True
      with True "1.prems"(4) have "ls' = ?ls" "cs' = cs"
        by (simp_all add: kmeansLoop.simps[of vs dimn maxIterations its] Let_def)
      with new show ?thesis by simp
    next
      case changed: False
      let ?cs = "updateCentroids dimn vs ?ls cs"
      have step: "kmeansLoop vs dimn maxIterations (its + 1) ?ls ?cs = (ls', cs', its')"
        using True changed "1.prems"(4) by (simp add: kmeansLoop.simps[of vs dimn maxIterations its] Let_def)
      have len: "length ?cs = length cs"
        by (rule length_updateCentroids)
      have a: "?cs \<noteq> []"
        using "1.prems"(1) len by (metis length_0_conv)
      have b: "\<forall>l \<in> set ?ls. l < length ?cs"
        using new by (simp only: len)
      have c: "length ?ls = length vs" by simp
      from "1.IH"[OF True refl changed a b c step]
      have r: "length cs' = length ?cs" "\<forall>l \<in> set ls'. l < length cs'" "length ls' = length vs"
        by blast+
      from r(1) len have "length cs' = length cs" by (rule trans)
      with r(2,3) show ?thesis by blast
    qed
  qed
qed


lemma runKMeans_labels:
  "\<forall>l \<in> set (labels (runKMeans conv data k maxIterations)).
      l = - 1 \<or> (0 \<le> l \<and> l < int (length (centroids (runKMeans conv data k maxIterations))))"
proof -
  let ?ex = "extractValidEmbeddings conv data"
  let ?vs = "vectors ?ex"
  let ?t = "min k (real (length ?vs))"
  let ?cs0 = "chooseCentroids ?vs ?t (if ?t = 0 then 0 else length ?vs * 4) 0 (createSeededRandom 1993) [] []"
  show ?thesis
  proof (cases "data = [] \<or> ?vs = [] \<or> dimension ?ex = 0 \<or> ?cs0 = []")
    case True
    then show ?thesis
      by (auto simp: runKMeans_def allNoise_def Let_def)
  next
    case False
    obtain ls cs its where loop:
      "kmeansLoop ?vs (dimension ?ex) maxIterations 0 (replicate (length ?vs) 0) ?cs0 = (ls, cs, its)"
      by (cases "kmeansLoop ?vs (dimension ?ex) maxIterations 0 (replicate (length ?vs) 0) ?cs0")
    from False have init: "?cs0 \<noteq> []" "\<forall>l \<in> set (replicate (length ?vs) (0::nat)). l < length ?cs0"
      by simp_all
    have "length (replicate (length ?vs) (0::nat)) = length ?vs" by simp
    from kmeansLoop_labels[OF init this loop]
    have r: "\<forall>l \<in> set ls. l < length cs" "length ls = length ?vs" by blast+
    have res: "runKMeans conv data k maxIterations =
        \<lparr>labels = fullLabels (length data) (indices ?ex) (map int ls), centroids = cs,
         iterations = Some its, inertia = Some (toFixed (inertiaOf ?vs ls cs) 3), noiseCount = None\<rparr>"
      using False loop by (simp add: runKMeans_def Let_def)
    have "length (indices ?ex) \<le> length (map int ls)"
      using extract_rowsOk[of conv data] r(2) by (simp add: rowsOk_def)
    from fullLabels_values[OF this, of "length data"] r(1) show ?thesis
      unfolding res by auto
  qed
qed

text \<open>The agglomerative strategy.\<close>

lemma foldl_invariant:
  assumes "P a" "\<And>a x. x \<in> set xs \<Longrightarrow> P a \<Longrightarrow> P (f a x)"
  shows "P (foldl f a xs)"
  using assms by (induction xs arbitrary: a) simp_all

lemma closestPair_bound:
  assumes "2 \<le> length clusters" "closestPair vs clusters cache = ((bestI, bestJ, bd), cache')"
  shows "bestJ < length clusters"
proof -
  let ?ps = "concat (map (\<lambda>i. map (\<lambda>j. (i, j)) [i + 1..<length clusters]) [0..<length clusters])"
  have "fst (snd (fst (foldl (pairStep vs clusters) ((0, 1, None), cache) ?ps))) < length clusters"
  proof (rule foldl_invariant[where P = "\<lambda>st. fst (snd (fst st)) < length clusters"])
    show "fst (snd (fst ((0::nat, 1::nat, None :: real option), cache))) < length clusters"
      using assms(1) by simp
  next
    fix st :: "(nat \<times> nat \<times> real option) \<times> distanceCache" and p
    assume "p \<in> set ?ps" "fst (snd (fst st)) < length clusters"
    then show "fst (snd (fst (pairStep vs clusters st p))) < length clusters"
      by (auto simp: pairStep_def split: prod.splits)
  qed
  with assms(2) show ?thesis by (simp add: closestPair_def)
qed

lemma agglomerate_returns:
  assumes "1 \<le> targetClusters" "clusters \<noteq> []"
  shows "\<exists>final. agglomerate vs targetClusters clusters cache = Some final \<and> final \<noteq> []"
  using assms
proof (induction vs targetClusters clusters cache rule: agglomerate.induct)
  case (1 vs targetClusters clusters cache)
  show ?case
  proof (cases "targetClusters < real (length clusters)")
    case False
    with "1.prems" show ?thesis by (simp add: agglomerate.simps[of vs targetClusters clusters])
  next
    case True
    with "1.prems"(1) have two: "2 \<le> length clusters" by simp
    obtain bestI bestJ bd cache' where cp: "closestPair vs clusters cache = ((bestI, bestJ, bd), cache')"
      by (metis prod_cases3 surj_pair)
    have j: "bestJ < length clusters" by (rule closestPair_bound[OF two cp])
    have i: "bestI < bestJ" by (rule closestPair_order[OF cp])
    let ?c1 = "splice bestJ 1 [] clusters"
    let ?c2 = "splice bestI 1 [clusters ! bestI @ clusters ! bestJ] ?c1"
    have ne: "?c2 \<noteq> []" by (simp add: splice_def)
    have unfold: "agglomerate vs targetClusters clusters cache = agglomerate vs targetClusters ?c2 cache'"
      using True cp j by (simp add: agglomerate.simps[of vs targetClusters clusters] Let_def)
    from "1.IH"[OF True cp[symmetric] refl refl _ refl refl refl "1.prems"(1) ne] j
    show ?thesis unfolding unfold by simp
  qed
qed


lemma clusterLabels_range:
  assumes "clusters \<noteq> []"
  shows "\<forall>l \<in> set (clusterLabels n clusters). l < length clusters"
    and "length (clusterLabels n clusters) = n"
proof -
  let ?inner = "\<lambda>clusterIdx ls cluster. foldl (\<lambda>ls nodeIdx. ls[nodeIdx := clusterIdx]) ls cluster"
  let ?P = "\<lambda>ls. (\<forall>l \<in> set ls. l < length clusters) \<and> length ls = n"
  have inner: "?P (?inner c ls cluster)" if "?P ls" "c < length clusters" for c ls cluster
  proof (rule foldl_invariant[where P = ?P])
    show "?P ls" by (rule that)
  next
    fix a :: "nat list" and x
    assume "?P a"
    with that(2) show "?P (a[x := c])"
      using set_update_subset_insert[of a x c] by auto
  qed
  have "?P (clusterLabels n clusters)"
    unfolding clusterLabels_def
  proof (rule foldl_invariant[where P = ?P])
    show "?P (replicate n 0)" using assms by simp
  next
    fix a :: "nat list" and p
    assume p: "p \<in> set (List.enumerate 0 clusters)" and a: "?P a"
    obtain c cluster where pc: "p = (c, cluster)" by (cases p)
    with p have "c < length clusters" by (simp add: in_set_enumerate_eq)
    from inner[OF a this, of cluster] show "?P (case p of (clusterIdx, cluster) \<Rightarrow> ?inner clusterIdx a cluster)"
      by (simp add: pc)
  qed
  then show "\<forall>l \<in> set (clusterLabels n clusters). l < length clusters"
    and "length (clusterLabels n clusters) = n"
    by blast+
qed

lemma runAgglomerative_labels:
  "\<exists>r. runAgglomerative conv data targetClusters = Some r \<and>
      (\<forall>l \<in> set (labels r). l = - 1 \<or> (0 \<le> l \<and> l < int (length (centroids r))))"
proof -
  let ?ex = "extractValidEmbeddings conv data"
  let ?vs = "vectors ?ex"
  show ?thesis
  proof (cases "data = [] \<or> ?vs = [] \<or> dimension ?ex = 0 \<or> targetClusters < 1")
    case True
    then show ?thesis
      by (auto simp: runAgglomerative_def noClusters_def Let_def)
  next
    case False
    then have "map (\<lambda>idx. [idx]) [0..<length ?vs] \<noteq> []" "1 \<le> targetClusters"
      by simp_all
    from agglomerate_returns[OF this(2,1), of ?vs Map.empty] obtain final where
      f: "agglomerate ?vs targetClusters (map (\<lambda>idx. [idx]) [0..<length ?vs]) Map.empty = Some final"
        "final \<noteq> []"
      by blast
    have res: "runAgglomerative conv data targetClusters =
        Some \<lparr>labels = fullLabels (length data) (indices ?ex) (map int (clusterLabels (length ?vs) final)),
              centroids = map (meanOf (dimension ?ex) ?vs) final,
              iterations = None, inertia = None, noiseCount = None\<rparr>"
      using False f(1) by (simp add: runAgglomerative_def Let_def)
    have "length (indices ?ex) \<le> length (map int (clusterLabels (length ?vs) final))"
      using extract_rowsOk[of conv data] clusterLabels_range(2)[OF f(2)] by (simp add: rowsOk_def)
    from fullLabels_values[OF this, of "length data"] clusterLabels_range(1)[OF f(2), of "length ?vs"]
    show ?thesis
      unfolding res by auto
  qed
qed


text \<open>
  DBSCAN. The invariant of both loops, for a matrix of \<open>n\<close> rows with \<open>m\<close> cluster ids
  in use: every label is \<open>-1\<close> or an id in use, every id in use labels some row, and a row
  not yet visited is labelled \<open>-1\<close>.
\<close>

definition dbscanInv :: "nat \<Rightarrow> nat \<Rightarrow> int list \<Rightarrow> nat set \<Rightarrow> bool" where
  "dbscanInv n m ls visited =
     (length ls = n \<and>
      (\<forall>i < n. ls ! i = - 1 \<or> (0 \<le> ls ! i \<and> ls ! i < int m)) \<and>
      (\<forall>c < m. \<exists>i < n. ls ! i = int c) \<and>
      (\<forall>i < n. i \<notin> visited \<longrightarrow> ls ! i = - 1))"

lemma regionQuery_bound: "set (regionQuery vs eps p) \<subseteq> {..<length vs}"
  by (auto simp: regionQuery_def)

lemma pushNew_subset: "set (pushNew seeds ns) \<subseteq> set seeds \<union> set ns"
  unfolding pushNew_def
proof (induction ns arbitrary: seeds)
  case Nil
  show ?case by simp
next
  case (Cons a ns)
  from Cons.IH[of "if a \<in> set seeds then seeds else seeds @ [a]"] show ?case
    by (auto split: if_splits)
qed

lemma dbscanInv_label:
  assumes inv: "dbscanInv n (Suc cid) ls visited"
    and cur: "current < n" "current \<in> visited'" "visited \<subseteq> visited'"
  shows "dbscanInv n (Suc cid) (if ls ! current = - 1 then ls[current := int cid] else ls) visited'"
proof (cases "ls ! current = - 1")
  case False
  with inv cur(3) show ?thesis
    by (auto simp: dbscanInv_def)
next
  case True
  from inv have len: "length ls = n" by (simp add: dbscanInv_def)
  have b: "ls[current := int cid] ! i = - 1 \<or> (0 \<le> ls[current := int cid] ! i \<and> ls[current := int cid] ! i < int (Suc cid))"
    if "i < n" for i
    using inv that len by (cases "i = current") (auto simp: dbscanInv_def)
  have c: "\<exists>i < n. ls[current := int cid] ! i = int c" if "c < Suc cid" for c
  proof -
    from inv that obtain i where i: "i < n" "ls ! i = int c" by (auto simp: dbscanInv_def)
    with True have "i \<noteq> current" by auto
    with i show ?thesis by auto
  qed
  have d: "ls[current := int cid] ! i = - 1" if "i < n" "i \<notin> visited'" for i
  proof -
    from that cur have "i \<noteq> current" "i \<notin> visited" by auto
    with inv that(1) show ?thesis by (simp add: dbscanInv_def)
  qed
  from True len b c d show ?thesis
    unfolding dbscanInv_def by simp
qed

lemma expand_returns:
  assumes "dbscanInv (length vs) (Suc cid) ls visited" "set seeds \<subseteq> {..<length vs}" "clusterId = int cid"
  shows "\<exists>ls' visited'. expand vs eps minPts clusterId seeds ls visited = Some (ls', visited')
           \<and> dbscanInv (length vs) (Suc cid) ls' visited'"
  using assms
proof (induction vs eps minPts clusterId seeds ls visited rule: expand.induct)
  case (1 vs eps minPts clusterId seeds ls visited)
  show ?case
  proof (cases "seeds = []")
    case True
    with "1.prems"(1) show ?thesis by (simp add: expand.simps[of vs eps minPts clusterId "[]"])
  next
    case False
    let ?current = "last seeds"
    let ?seeds1 = "butlast seeds"
    let ?ls = "if ls ! ?current = - 1 then ls[?current := clusterId] else ls"
    from False have "?current \<in> set seeds" by (rule last_in_set)
    with "1.prems"(2) have cur: "?current < length vs" by blast
    have s1: "set ?seeds1 \<subseteq> {..<length vs}"
      using "1.prems"(2) by (meson in_set_butlastD subset_iff)
    show ?thesis
    proof (cases "?current \<in> visited")
      case True
      have inv: "dbscanInv (length vs) (Suc cid) ?ls visited"
        unfolding "1.prems"(3)
        by (rule dbscanInv_label[OF "1.prems"(1) cur True]) simp
      have unfold: "expand vs eps minPts clusterId seeds ls visited
          = expand vs eps minPts clusterId ?seeds1 ?ls visited"
        using False True by (simp add: expand.simps[of vs eps minPts clusterId seeds] Let_def)
      from "1.IH"(2)[OF False refl refl refl _ inv s1 "1.prems"(3)] True
      show ?thesis unfolding unfold by simp
    next
      case unvisited: False
      let ?cn = "regionQuery vs eps ?current"
      let ?seeds2 = "if minPts \<le> real (length ?cn) then pushNew ?seeds1 ?cn else ?seeds1"
      have inv: "dbscanInv (length vs) (Suc cid) ?ls (insert ?current visited)"
        unfolding "1.prems"(3)
        by (rule dbscanInv_label[OF "1.prems"(1) cur]) auto
      have s2: "set ?seeds2 \<subseteq> {..<length vs}"
        using s1 regionQuery_bound[of vs eps ?current] pushNew_subset[of ?seeds1 ?cn] by auto
      have unfold: "expand vs eps minPts clusterId seeds ls visited
          = expand vs eps minPts clusterId ?seeds2 ?ls (insert ?current visited)"
        using False unvisited cur by (simp add: expand.simps[of vs eps minPts clusterId seeds] Let_def)
      from cur have nle: "\<not> length vs \<le> ?current" by simp
      from "1.IH"(1)[OF False refl refl refl unvisited nle refl refl inv s2 "1.prems"(3)]
      show ?thesis unfolding unfold .
    qed
  qed
qed


lemma dbscanInv_start:
  assumes inv: "dbscanInv n cid ls visited" and i: "i < n" "i \<notin> visited"
  shows "dbscanInv n (Suc cid) (ls[i := int cid]) (insert i visited)"
proof -
  from inv have len: "length ls = n" by (simp add: dbscanInv_def)
  from inv i have noise: "ls ! i = - 1" by (simp add: dbscanInv_def)
  have b: "ls[i := int cid] ! j = - 1 \<or> (0 \<le> ls[i := int cid] ! j \<and> ls[i := int cid] ! j < int (Suc cid))"
    if "j < n" for j
    using inv that len by (cases "j = i") (auto simp: dbscanInv_def)
  have c: "\<exists>j < n. ls[i := int cid] ! j = int c" if "c < Suc cid" for c
  proof (cases "c = cid")
    case True
    with i(1) len show ?thesis by auto
  next
    case False
    with that have "c < cid" by simp
    with inv obtain j where j: "j < n" "ls ! j = int c" by (auto simp: dbscanInv_def)
    with noise have "j \<noteq> i" by auto
    with j show ?thesis by auto
  qed
  have d: "ls[i := int cid] ! j = - 1" if "j < n" "j \<notin> insert i visited" for j
    using inv that by (simp add: dbscanInv_def)
  from len b c d show ?thesis
    unfolding dbscanInv_def by simp
qed

lemma dbscanInv_noise:
  assumes inv: "dbscanInv n cid ls visited" and i: "i < n" "i \<notin> visited"
  shows "dbscanInv n cid (ls[i := - 1]) (insert i visited)"
proof -
  from inv i have "ls ! i = - 1" by (simp add: dbscanInv_def)
  then have "ls[i := - 1] = ls" by (metis list_update_id)
  with inv show ?thesis by (auto simp: dbscanInv_def)
qed

lemma dbscanLoop_returns:
  assumes "dbscanInv (length vs) clusterId ls visited"
  shows "\<exists>ls' m visited'. dbscanLoop vs eps minPts i ls visited clusterId = Some (ls', m)
           \<and> dbscanInv (length vs) m ls' visited'"
  using assms
proof (induction vs eps minPts i ls visited clusterId rule: dbscanLoop.induct)
  case (1 vs eps minPts i ls visited clusterId)
  show ?case
  proof (cases "i < length vs")
    case False
    with "1.prems" show ?thesis
      by (auto simp: dbscanLoop.simps[of vs eps minPts i])
  next
    case True
    show ?thesis
    proof (cases "i \<in> visited")
      case seen: True
      have unfold: "dbscanLoop vs eps minPts i ls visited clusterId
          = dbscanLoop vs eps minPts (i + 1) ls visited clusterId"
        using True seen by (simp add: dbscanLoop.simps[of vs eps minPts i])
      from "1.IH"(1)[OF True seen "1.prems"] show ?thesis unfolding unfold .
    next
      case unseen: False
      let ?nb = "regionQuery vs eps i"
      show ?thesis
      proof (cases "real (length ?nb) < minPts")
        case noise: True
        have unfold: "dbscanLoop vs eps minPts i ls visited clusterId
            = dbscanLoop vs eps minPts (i + 1) (ls[i := - 1]) (insert i visited) clusterId"
          using True unseen noise by (simp add: dbscanLoop.simps[of vs eps minPts i] Let_def)
        from "1.IH"(2)[OF True unseen refl noise dbscanInv_noise[OF "1.prems" True unseen]]
        show ?thesis unfolding unfold .
      next
        case core: False
        from expand_returns[OF dbscanInv_start[OF "1.prems" True unseen] regionQuery_bound[of vs eps i] refl,
            where eps = eps and minPts = minPts]
        obtain ls1 visited1 where
          e: "expand vs eps minPts (int clusterId) ?nb (ls[i := int clusterId]) (insert i visited)
                = Some (ls1, visited1)"
          and inv1: "dbscanInv (length vs) (Suc clusterId) ls1 visited1"
          by blast
        have unfold: "dbscanLoop vs eps minPts i ls visited clusterId
            = dbscanLoop vs eps minPts (i + 1) ls1 visited1 (clusterId + 1)"
          using True unseen core e by (simp add: dbscanLoop.simps[of vs eps minPts i] Let_def)
        from inv1 have inv2: "dbscanInv (length vs) (clusterId + 1) ls1 visited1" by simp
        from "1.IH"(3)[OF True unseen refl core e refl inv2]
        show ?thesis unfolding unfold .
      qed
    qed
  qed
qed

lemma length_dbscanCentroids:
  assumes "\<forall>c < m. \<exists>i < length vs. ls ! i = int c"
  shows "length (dbscanCentroids dimn vs ls m) = m"
proof -
  have one: "length (let members = filter (\<lambda>i. ls ! i = int c) [0..<length vs]
                     in if members = [] then [] else [meanOf dimn vs members]) = 1"
    if "c < m" for c
  proof -
    from assms that obtain i where "i < length vs" "ls ! i = int c" by blast
    then have "i \<in> set (filter (\<lambda>i. ls ! i = int c) [0..<length vs])" by simp
    then have "filter (\<lambda>i. ls ! i = int c) [0..<length vs] \<noteq> []" by (metis empty_iff list.set(1))
    then show ?thesis by (simp add: Let_def)
  qed
  have "length (concat (map f cs)) = length cs" if "\<forall>c \<in> set cs. length (f c) = 1"
    for f :: "nat \<Rightarrow> real list list" and cs
    using that by (induction cs) simp_all
  from this[of "[0..<m]"] one show ?thesis
    unfolding dbscanCentroids_def by simp
qed

lemma runDbscan_labels:
  "\<exists>r. runDbscan conv data eps minPts = Some r \<and>
      (\<forall>l \<in> set (labels r). l = - 1 \<or> (0 \<le> l \<and> l < int (length (centroids r)))) \<and>
      (\<forall>c < length (centroids r). int c \<in> set (labels r))"
proof -
  let ?ex = "extractValidEmbeddings conv data"
  let ?vs = "vectors ?ex"
  show ?thesis
  proof (cases "data = [] \<or> ?vs = [] \<or> dimension ?ex = 0")
    case True
    then show ?thesis
      by (auto simp: runDbscan_def Let_def)
  next
    case False
    have "dbscanInv (length ?vs) 0 (replicate (length ?vs) (- 1)) {}"
      by (simp add: dbscanInv_def)
    from dbscanLoop_returns[OF this, of eps minPts 0] obtain ls m visited where
      loop: "dbscanLoop ?vs eps minPts 0 (replicate (length ?vs) (- 1)) {} 0 = Some (ls, m)"
      and inv: "dbscanInv (length ?vs) m ls visited"
      by blast
    let ?full = "fullLabels (length data) (indices ?ex) ls"
    have res: "runDbscan conv data eps minPts =
        Some \<lparr>labels = ?full, centroids = dbscanCentroids (dimension ?ex) ?vs ls m,
              iterations = None, inertia = None,
              noiseCount = Some (length (filter (\<lambda>label. label = - 1) ?full))\<rparr>"
      using False loop by (simp add: runDbscan_def Let_def)
    from inv have len: "length ls = length ?vs"
      and range: "\<forall>i < length ?vs. ls ! i = - 1 \<or> (0 \<le> ls ! i \<and> ls ! i < int m)"
      and used: "\<forall>c < m. \<exists>i < length ?vs. ls ! i = int c"
      by (simp_all add: dbscanInv_def)
    have cents: "length (dbscanCentroids (dimension ?ex) ?vs ls m) = m"
      by (rule length_dbscanCentroids[OF used])
    have li: "length ls = length (indices ?ex)"
      using extract_rowsOk[of conv data] len by (simp add: rowsOk_def)
    have "set ?full \<subseteq> insert (- 1) (set ls)"
      by (rule fullLabels_values) (simp add: li)
    moreover have "\<forall>l \<in> set ls. l = - 1 \<or> (0 \<le> l \<and> l < int m)"
      using range len by (auto simp: in_set_conv_nth)
    ultimately have a: "\<forall>l \<in> set ?full. l = - 1 \<or> (0 \<le> l \<and> l < int m)"
      by blast
    have "set ls \<subseteq> set ?full"
      by (rule fullLabels_covers[OF extract_indices_ok li])
    moreover have "\<forall>c < m. int c \<in> set ls"
      using used len by (metis nth_mem)
    ultimately have b: "\<forall>c < m. int c \<in> set ?full"
      by blast
    from a b show ?thesis
      unfolding res by (simp add: cents)
  qed
qed

subsection \<open>Facts about the inertia\<close>

lemma sum_list_upt_sum: "(\<Sum>i\<leftarrow>[0..<n]. f i) = (\<Sum>i<n. f i)"
  for f :: "nat \<Rightarrow> real"
  by (simp add: interv_sum_list_conv_sum_set_nat atLeast0LessThan)

lemma euclideanDistance_sq:
  "(euclideanDistance a b)\<^sup>2 = (\<Sum>d<length a. (a ! d - b ! d)\<^sup>2)"
proof -
  have "0 \<le> (\<Sum>d<length a. (a ! d - b ! d) * (a ! d - b ! d))"
    by (intro sum_nonneg) simp
  then show ?thesis
    by (simp add: euclideanDistance_def sum_list_upt_sum power2_eq_square)
qed

lemma inertiaOf_sum:
  "inertiaOf vs ls cs = (\<Sum>i<length vs. \<Sum>d<length (vs ! i). (vs ! i ! d - cs ! (ls ! i) ! d)\<^sup>2)"
  by (simp add: inertiaOf_def sum_list_upt_sum euclideanDistance_sq)

lemma nearestFrom_minimal:
  assumes "k \<le> length cs"
    and "case snd best of
           None \<Rightarrow> k = 0
         | Some d \<Rightarrow> fst best < k \<and> d = euclideanDistance v (cs ! fst best)
             \<and> (\<forall>j < k. d \<le> euclideanDistance v (cs ! j))"
    and "cs \<noteq> []"
  shows "\<exists>b d. nearestFrom v (drop k cs) k best = (b, Some d) \<and> b < length cs
           \<and> d = euclideanDistance v (cs ! b) \<and> (\<forall>j < length cs. d \<le> euclideanDistance v (cs ! j))"
  using assms
proof (induction "length cs - k" arbitrary: k best)
  case 0
  then have k: "k = length cs" by simp
  with "0.prems" obtain d where "snd best = Some d"
    by (cases "snd best") auto
  with "0.prems" k show ?case
    by (cases best) auto
next
  case (Suc m)
  then have lt: "k < length cs" by simp
  let ?distance = "euclideanDistance v (cs ! k)"
  let ?b = "if (case snd best of None \<Rightarrow> True | Some bestDistance \<Rightarrow> ?distance < bestDistance)
      then (k, Some ?distance) else best"
  have unfold: "nearestFrom v (drop k cs) k best = nearestFrom v (drop (Suc k) cs) (Suc k) ?b"
    using lt by (simp add: Cons_nth_drop_Suc[symmetric] Let_def)
  have inv: "case snd ?b of
           None \<Rightarrow> Suc k = 0
         | Some d \<Rightarrow> fst ?b < Suc k \<and> d = euclideanDistance v (cs ! fst ?b)
             \<and> (\<forall>j < Suc k. d \<le> euclideanDistance v (cs ! j))"
  proof (cases "snd best")
    case None
    with Suc.prems(2) show ?thesis by simp
  next
    case (Some bd)
    with Suc.prems(2) have old: "fst best < k" "bd = euclideanDistance v (cs ! fst best)"
      "\<forall>j < k. bd \<le> euclideanDistance v (cs ! j)" by auto
    show ?thesis
    proof (cases "?distance < bd")
      case True
      with Some old(3) show ?thesis
        by (auto simp: less_Suc_eq)
    next
      case False
      with Some old show ?thesis
        by (auto simp: less_Suc_eq)
    qed
  qed
  from Suc.hyps(2) have m: "m = length cs - Suc k" by simp
  from Suc.hyps(1)[OF m _ inv Suc.prems(3)] lt show ?case
    unfolding unfold by simp
qed

lemma bestCluster_nearest:
  assumes "cs \<noteq> []" "l < length cs"
  shows "bestCluster cs v < length cs"
    and "euclideanDistance v (cs ! bestCluster cs v) \<le> euclideanDistance v (cs ! l)"
proof -
  from nearestFrom_minimal[of 0 cs "(0, None)" v] assms(1)
  obtain b d where "nearestFrom v cs 0 (0, None) = (b, Some d)" "b < length cs"
    "d = euclideanDistance v (cs ! b)" "\<forall>j < length cs. d \<le> euclideanDistance v (cs ! j)"
    by auto
  with assms(2) show "bestCluster cs v < length cs"
    and "euclideanDistance v (cs ! bestCluster cs v) \<le> euclideanDistance v (cs ! l)"
    by (simp_all add: bestCluster_def)
qed

lemma assign_decreases:
  assumes "cs \<noteq> []" "length ls = length vs" "\<forall>l \<in> set ls. l < length cs"
  shows "inertiaOf vs (map (bestCluster cs) vs) cs \<le> inertiaOf vs ls cs"
proof -
  have "(euclideanDistance (vs ! i) (cs ! (map (bestCluster cs) vs ! i)))\<^sup>2
      \<le> (euclideanDistance (vs ! i) (cs ! (ls ! i)))\<^sup>2" if "i < length vs" for i
  proof -
    from that assms have "ls ! i < length cs" by simp
    from bestCluster_nearest(2)[OF assms(1) this, of "vs ! i"] that show ?thesis
      by (simp add: euclideanDistance_nonneg power_mono)
  qed
  then show ?thesis
    unfolding inertiaOf_def sum_list_upt_sum by (intro sum_mono) simp
qed


lemma foldl_pointwise:
  "m \<le> length row \<Longrightarrow>
     foldl (\<lambda>row d. row[d := h (row ! d) d]) row [0..<m]
       = map (\<lambda>d. if d < m then h (row ! d) d else row ! d) [0..<length row]"
proof (induction m)
  case 0
  show ?case by (simp add: map_nth)
next
  case (Suc m)
  then have m: "m < length row" by simp
  let ?r = "map (\<lambda>d. if d < m then h (row ! d) d else row ! d) [0..<length row]"
  have "foldl (\<lambda>row d. row[d := h (row ! d) d]) row [0..<Suc m] = ?r[m := h (?r ! m) m]"
    using Suc by simp
  also have "\<dots> = map (\<lambda>d. if d < Suc m then h (row ! d) d else row ! d) [0..<length row]"
  proof (rule nth_equalityI)
    show "length (?r[m := h (?r ! m) m])
        = length (map (\<lambda>d. if d < Suc m then h (row ! d) d else row ! d) [0..<length row])"
      by simp
  next
    fix i assume "i < length (?r[m := h (?r ! m) m])"
    then have i: "i < length row" by simp
    show "?r[m := h (?r ! m) m] ! i
        = map (\<lambda>d. if d < Suc m then h (row ! d) d else row ! d) [0..<length row] ! i"
    proof (cases "i = m")
      case True
      with m show ?thesis by simp
    next
      case False
      with i show ?thesis by (simp add: less_Suc_eq)
    qed
  qed
  finally show ?case .
qed

lemma foldl_pointwise_full:
  "length row = D \<Longrightarrow>
     foldl (\<lambda>row d. row[d := h (row ! d) d]) row [0..<D] = map (\<lambda>d. h (row ! d) d) [0..<D]"
  using foldl_pointwise[of D row h] by simp

lemma foldl_add_row:
  "length row = D \<Longrightarrow>
     foldl (\<lambda>row d. row[d := row ! d + y ! d]) row [0..<D] = map (\<lambda>d. row ! d + y ! d) [0..<D]"
  for row :: "real list"
  by (rule foldl_pointwise_full[where h = "\<lambda>x d. x + y ! d"])

lemma foldl_set_row:
  "length row = D \<Longrightarrow> foldl (\<lambda>row d. row[d := g d]) row [0..<D] = map g [0..<D]"
  by (rule foldl_pointwise_full[where h = "\<lambda>x d. g d"])

lemma clusterCounts_snoc:
  "clusterCounts k (ls @ [l]) = (clusterCounts k ls)[l := clusterCounts k ls ! l + 1]"
  by (simp add: clusterCounts_def)

lemma length_clusterCounts: "length (clusterCounts k ls) = k"
  by (induction ls rule: rev_induct) (simp_all add: clusterCounts_snoc, simp add: clusterCounts_def)

lemma clusterCounts_nth:
  "c < k \<Longrightarrow> real (clusterCounts k ls ! c) = (\<Sum>i<length ls. if ls ! i = c then 1 else 0)"
proof (induction ls rule: rev_induct)
  case Nil
  then show ?case by (simp add: clusterCounts_def)
next
  case (snoc l ls)
  have "(\<Sum>i<length ls. if (ls @ [l]) ! i = c then 1 else (0::real))
      = (\<Sum>i<length ls. if ls ! i = c then 1 else 0)"
    by (intro sum.cong) (simp_all add: nth_append)
  with snoc show ?case
    by (simp add: clusterCounts_snoc nth_list_update length_clusterCounts)
qed

definition sumsUpTo :: "nat \<Rightarrow> nat \<Rightarrow> real list list \<Rightarrow> nat list \<Rightarrow> nat \<Rightarrow> real list list" where
  "sumsUpTo k dimn vs ls m =
     foldl (\<lambda>totals i.
              totals[ls ! i := foldl (\<lambda>row d. row[d := row ! d + vs ! i ! d]) (totals ! (ls ! i)) [0..<dimn]])
       (replicate k (replicate dimn 0)) [0..<m]"

lemma sumsUpTo_Suc:
  "sumsUpTo k dimn vs ls (Suc m) =
     (sumsUpTo k dimn vs ls m)[ls ! m :=
        foldl (\<lambda>row d. row[d := row ! d + vs ! m ! d]) (sumsUpTo k dimn vs ls m ! (ls ! m)) [0..<dimn]]"
  by (simp add: sumsUpTo_def)

lemma sumsUpTo_shape:
  "length (sumsUpTo k dimn vs ls m) = k \<and> (\<forall>c < k. length (sumsUpTo k dimn vs ls m ! c) = dimn)"
proof (induction m)
  case 0
  show ?case by (simp add: sumsUpTo_def)
next
  case (Suc m)
  let ?t = "sumsUpTo k dimn vs ls m"
  let ?row = "foldl (\<lambda>row d. row[d := row ! d + vs ! m ! d]) (?t ! (ls ! m)) [0..<dimn]"
  have row: "length ?row = length (?t ! (ls ! m))"
    by (rule length_foldl_preserve) simp
  have "length (?t[ls ! m := ?row] ! c) = dimn" if "c < k" for c
    using that Suc row by (cases "c = ls ! m") simp_all
  with Suc show ?case
    by (simp add: sumsUpTo_Suc)
qed

lemma sumsUpTo_nth:
  assumes "c < k" "d < dimn"
  shows "sumsUpTo k dimn vs ls m ! c ! d = (\<Sum>i<m. if ls ! i = c then vs ! i ! d else 0)"
proof (induction m)
  case 0
  from assms show ?case by (simp add: sumsUpTo_def)
next
  case (Suc m)
  let ?t = "sumsUpTo k dimn vs ls m"
  from sumsUpTo_shape[of k dimn vs ls m] have shape: "length ?t = k" "\<forall>c < k. length (?t ! c) = dimn"
    by simp_all
  show ?case
  proof (cases "ls ! m = c")
    case True
    with assms shape have "foldl (\<lambda>row d. row[d := row ! d + vs ! m ! d]) (?t ! c) [0..<dimn]
        = map (\<lambda>d. ?t ! c ! d + vs ! m ! d) [0..<dimn]"
      by (simp add: foldl_add_row)
    with True assms shape Suc show ?thesis
      by (simp add: sumsUpTo_Suc)
  next
    case False
    with assms shape Suc show ?thesis
      by (simp add: sumsUpTo_Suc)
  qed
qed

lemma clusterSums_nth:
  "c < k \<Longrightarrow> d < dimn \<Longrightarrow>
     clusterSums k dimn vs ls ! c ! d = (\<Sum>i<length vs. if ls ! i = c then vs ! i ! d else 0)"
  using sumsUpTo_nth[of c k d dimn vs ls "length vs"]
  by (simp add: clusterSums_def sumsUpTo_def)

lemma updateCentroids_nth:
  assumes "c < length cs" "length (cs ! c) = dimn" "length ls = length vs"
  shows "updateCentroids dimn vs ls cs ! c =
     (if (\<Sum>i<length vs. if ls ! i = c then 1 else (0::real)) = 0 then cs ! c
      else map (\<lambda>d. (\<Sum>i<length vs. if ls ! i = c then vs ! i ! d else 0)
                        / (\<Sum>i<length vs. if ls ! i = c then 1 else 0)) [0..<dimn])"
proof -
  let ?n = "clusterCounts (length cs) ls ! c"
  have n: "real ?n = (\<Sum>i<length vs. if ls ! i = c then 1 else 0)"
    using clusterCounts_nth[OF assms(1), of ls] assms(3) by simp
  have zero: "(?n = 0) = ((\<Sum>i<length vs. if ls ! i = c then 1 else (0::real)) = 0)"
    using n by (metis of_nat_eq_0_iff)
  have "foldl (\<lambda>row d. row[d := clusterSums (length cs) dimn vs ls ! c ! d / real ?n]) (cs ! c) [0..<dimn]
      = map (\<lambda>d. clusterSums (length cs) dimn vs ls ! c ! d / real ?n) [0..<dimn]"
    by (rule foldl_set_row[OF assms(2)])
  also have "\<dots> = map (\<lambda>d. (\<Sum>i<length vs. if ls ! i = c then vs ! i ! d else 0)
                        / (\<Sum>i<length vs. if ls ! i = c then 1 else 0)) [0..<dimn]"
    using assms(1) by (simp add: clusterSums_nth n)
  finally show ?thesis
    using assms(1) by (simp add: updateCentroids_def Let_def zero)
qed


lemma square_shift:
  fixes x :: "nat \<Rightarrow> real"
  assumes "m * (\<Sum>i<n. if P i then 1 else 0) = (\<Sum>i<n. if P i then x i else 0)"
  shows "(\<Sum>i<n. if P i then (x i - a)\<^sup>2 else 0)
      = (\<Sum>i<n. if P i then (x i - m)\<^sup>2 else 0) + (m - a)\<^sup>2 * (\<Sum>i<n. if P i then 1 else 0)"
proof -
  let ?N = "\<Sum>i<n. if P i then 1 else (0::real)"
  let ?S = "\<Sum>i<n. if P i then x i else 0"
  have dev: "(\<Sum>i<n. if P i then x i - m else 0) = 0"
  proof -
    have "(\<Sum>i<n. if P i then x i - m else 0)
        = (\<Sum>i<n. (if P i then x i else 0) - m * (if P i then 1 else 0))"
      by (intro sum.cong) simp_all
    also have "\<dots> = ?S - m * ?N"
      by (simp only: sum_subtractf sum_distrib_left)
    also have "\<dots> = 0"
      using assms by simp
    finally show ?thesis .
  qed
  have "(\<Sum>i<n. if P i then (x i - a)\<^sup>2 else 0)
      = (\<Sum>i<n. (if P i then (x i - m)\<^sup>2 else 0)
            + (2 * (m - a) * (if P i then x i - m else 0) + (m - a)\<^sup>2 * (if P i then 1 else 0)))"
    by (intro sum.cong) (simp_all add: power2_eq_square algebra_simps)
  also have "\<dots> = (\<Sum>i<n. if P i then (x i - m)\<^sup>2 else 0)
            + (2 * (m - a) * (\<Sum>i<n. if P i then x i - m else 0) + (m - a)\<^sup>2 * ?N)"
    by (simp only: sum.distrib sum_distrib_left)
  also have "\<dots> = (\<Sum>i<n. if P i then (x i - m)\<^sup>2 else 0) + (m - a)\<^sup>2 * ?N"
    by (simp add: dev)
  finally show ?thesis .
qed

lemma mean_minimises:
  fixes x :: "nat \<Rightarrow> real"
  assumes "(\<Sum>i<n. if P i then 1 else (0::real)) \<noteq> 0"
  shows "(\<Sum>i<n. if P i then (x i - (\<Sum>i<n. if P i then x i else 0) / (\<Sum>i<n. if P i then 1 else 0))\<^sup>2 else 0)
      \<le> (\<Sum>i<n. if P i then (x i - a)\<^sup>2 else 0)"
proof -
  let ?N = "\<Sum>i<n. if P i then 1 else (0::real)"
  let ?S = "\<Sum>i<n. if P i then x i else 0"
  define m where "m = ?S / ?N"
  have "m * ?N = ?S" using assms by (simp add: m_def)
  from square_shift[OF this, of a]
  have eq: "(\<Sum>i<n. if P i then (x i - a)\<^sup>2 else 0)
      = (\<Sum>i<n. if P i then (x i - m)\<^sup>2 else 0) + (m - a)\<^sup>2 * ?N" .
  have "0 \<le> ?N" by (intro sum_nonneg) simp
  then have "0 \<le> (m - a)\<^sup>2 * ?N" by simp
  with eq show ?thesis unfolding m_def by linarith
qed

text \<open>
  The state of the main loop of K-Means is well formed: there is a centroid, rows and
  centroids have the dimension, and every row has a label that names a centroid.
\<close>

definition kmeansState :: "nat \<Rightarrow> real list list \<Rightarrow> nat list \<Rightarrow> real list list \<Rightarrow> bool" where
  "kmeansState dimn vs ls cs =
     (cs \<noteq> [] \<and> list_all (\<lambda>v. length v = dimn) vs \<and> list_all (\<lambda>c. length c = dimn) cs
      \<and> length ls = length vs \<and> list_all (\<lambda>l. l < length cs) ls)"

lemma inertia_grouped:
  assumes "kmeansState dimn vs ls cs"
  shows "inertiaOf vs ls cs =
     (\<Sum>c<length cs. \<Sum>d<dimn. \<Sum>i<length vs. if ls ! i = c then (vs ! i ! d - cs ! c ! d)\<^sup>2 else 0)"
proof -
  from assms have rows: "\<And>i. i < length vs \<Longrightarrow> length (vs ! i) = dimn"
    and labs: "\<And>i. i < length vs \<Longrightarrow> ls ! i < length cs"
    by (simp_all add: kmeansState_def list_all_length)
  have "inertiaOf vs ls cs = (\<Sum>i<length vs. \<Sum>d<dimn. (vs ! i ! d - cs ! (ls ! i) ! d)\<^sup>2)"
    unfolding inertiaOf_sum by (rule sum.cong[OF refl]) (simp add: rows)
  also have "\<dots> = (\<Sum>i<length vs. \<Sum>c<length cs.
        if ls ! i = c then (\<Sum>d<dimn. (vs ! i ! d - cs ! c ! d)\<^sup>2) else 0)"
    by (rule sum.cong[OF refl]) (simp add: sum.delta' labs)
  also have "\<dots> = (\<Sum>i<length vs. \<Sum>c<length cs. \<Sum>d<dimn.
        if ls ! i = c then (vs ! i ! d - cs ! c ! d)\<^sup>2 else 0)"
    by (intro sum.cong[OF refl]) simp
  also have "\<dots> = (\<Sum>c<length cs. \<Sum>i<length vs. \<Sum>d<dimn.
        if ls ! i = c then (vs ! i ! d - cs ! c ! d)\<^sup>2 else 0)"
    by (rule sum.swap)
  also have "\<dots> = (\<Sum>c<length cs. \<Sum>d<dimn. \<Sum>i<length vs.
        if ls ! i = c then (vs ! i ! d - cs ! c ! d)\<^sup>2 else 0)"
    by (rule sum.cong[OF refl]) (rule sum.swap)
  finally show ?thesis .
qed

lemma updateCentroids_state:
  assumes "kmeansState dimn vs ls cs"
  shows "kmeansState dimn vs ls (updateCentroids dimn vs ls cs)"
proof -
  from assms have cents: "\<And>c. c < length cs \<Longrightarrow> length (cs ! c) = dimn"
    and len: "length ls = length vs"
    by (simp_all add: kmeansState_def list_all_length)
  have "length (updateCentroids dimn vs ls cs ! c) = dimn" if "c < length cs" for c
    using updateCentroids_nth[OF that cents[OF that] len] cents[OF that] by simp
  moreover have "updateCentroids dimn vs ls cs \<noteq> []"
    using assms length_updateCentroids[of dimn vs ls cs] by (metis kmeansState_def length_0_conv)
  ultimately show ?thesis
    using assms by (simp add: kmeansState_def list_all_length length_updateCentroids)
qed

lemma update_decreases:
  assumes "kmeansState dimn vs ls cs"
  shows "inertiaOf vs ls (updateCentroids dimn vs ls cs) \<le> inertiaOf vs ls cs"
proof -
  let ?cs = "updateCentroids dimn vs ls cs"
  from assms have cents: "\<And>c. c < length cs \<Longrightarrow> length (cs ! c) = dimn"
    and len: "length ls = length vs"
    by (simp_all add: kmeansState_def list_all_length)
  have step: "(\<Sum>i<length vs. if ls ! i = c then (vs ! i ! d - ?cs ! c ! d)\<^sup>2 else 0)
      \<le> (\<Sum>i<length vs. if ls ! i = c then (vs ! i ! d - cs ! c ! d)\<^sup>2 else 0)"
    if c: "c < length cs" and d: "d < dimn" for c d
  proof (cases "(\<Sum>i<length vs. if ls ! i = c then 1 else (0::real)) = 0")
    case True
    with updateCentroids_nth[OF c cents[OF c] len] have eq: "?cs ! c = cs ! c" by simp
    show ?thesis unfolding eq by simp
  next
    case False
    with updateCentroids_nth[OF c cents[OF c] len] d
    have eq: "?cs ! c ! d = (\<Sum>i<length vs. if ls ! i = c then vs ! i ! d else 0)
        / (\<Sum>i<length vs. if ls ! i = c then 1 else 0)"
      by (simp cong: if_cong)
    show ?thesis
      unfolding eq by (rule mean_minimises[OF False])
  qed
  have "inertiaOf vs ls ?cs =
     (\<Sum>c<length cs. \<Sum>d<dimn. \<Sum>i<length vs. if ls ! i = c then (vs ! i ! d - ?cs ! c ! d)\<^sup>2 else 0)"
    using inertia_grouped[OF updateCentroids_state[OF assms]] by (simp add: length_updateCentroids)
  also have "\<dots> \<le>
     (\<Sum>c<length cs. \<Sum>d<dimn. \<Sum>i<length vs. if ls ! i = c then (vs ! i ! d - cs ! c ! d)\<^sup>2 else 0)"
    by (intro sum_mono step) simp_all
  also have "\<dots> = inertiaOf vs ls cs"
    by (rule inertia_grouped[OF assms, symmetric])
  finally show ?thesis .
qed


lemma assign_state:
  assumes "kmeansState dimn vs ls cs"
  shows "kmeansState dimn vs (map (bestCluster cs) vs) cs"
  using assms by (simp add: kmeansState_def list_all_iff bestCluster_less)

lemma round_decreases:
  assumes "kmeansState dimn vs ls cs"
  shows "inertiaOf vs (map (bestCluster cs) vs) (updateCentroids dimn vs (map (bestCluster cs) vs) cs)
      \<le> inertiaOf vs ls cs"
proof -
  have "inertiaOf vs (map (bestCluster cs) vs) (updateCentroids dimn vs (map (bestCluster cs) vs) cs)
      \<le> inertiaOf vs (map (bestCluster cs) vs) cs"
    by (rule update_decreases[OF assign_state[OF assms]])
  also have "\<dots> \<le> inertiaOf vs ls cs"
    using assms by (intro assign_decreases) (simp_all add: kmeansState_def list_all_iff)
  finally show ?thesis .
qed

lemma kmeansLoop_decreases:
  assumes "kmeansState dimn vs ls cs" "kmeansLoop vs dimn maxIterations its ls cs = (ls', cs', its')"
  shows "inertiaOf vs ls' cs' \<le> inertiaOf vs ls cs"
    and "its < maxIterations \<Longrightarrow> inertiaOf vs ls' cs' \<le> inertiaOf vs (map (bestCluster cs) vs) cs"
proof -
  have "inertiaOf vs ls' cs' \<le> inertiaOf vs ls cs \<and>
      (its < maxIterations \<longrightarrow> inertiaOf vs ls' cs' \<le> inertiaOf vs (map (bestCluster cs) vs) cs)"
    using assms
  proof (induction vs dimn maxIterations its ls cs rule: kmeansLoop.induct)
    case (1 vs dimn maxIterations its ls cs)
    let ?ls = "map (bestCluster cs) vs"
    have a: "inertiaOf vs ?ls cs \<le> inertiaOf vs ls cs"
      using "1.prems"(1) by (intro assign_decreases) (simp_all add: kmeansState_def list_all_iff)
    show ?case
    proof (cases "its < maxIterations")
      case False
      with "1.prems"(2) have "ls' = ls" "cs' = cs"
        by (simp_all add: kmeansLoop.simps[of vs dimn maxIterations its])
      with False show ?thesis by simp
    next
      case True
      show ?thesis
      proof (cases "?ls = ls")
        case same: True
        with True "1.prems"(2) have "ls' = ?ls" "cs' = cs"
          by (simp_all add: kmeansLoop.simps[of vs dimn maxIterations its] Let_def)
        with a show ?thesis by simp
      next
        case changed: False
        let ?cs = "updateCentroids dimn vs ?ls cs"
        have step: "kmeansLoop vs dimn maxIterations (its + 1) ?ls ?cs = (ls', cs', its')"
          using True changed "1.prems"(2)
          by (simp add: kmeansLoop.simps[of vs dimn maxIterations its] Let_def)
        have st: "kmeansState dimn vs ?ls ?cs"
          by (rule updateCentroids_state[OF assign_state[OF "1.prems"(1)]])
        from "1.IH"[OF True refl changed st step]
        have "inertiaOf vs ls' cs' \<le> inertiaOf vs ?ls ?cs" by blast
        also have "\<dots> \<le> inertiaOf vs ?ls cs"
          by (rule update_decreases[OF assign_state[OF "1.prems"(1)]])
        finally have b: "inertiaOf vs ls' cs' \<le> inertiaOf vs ?ls cs" .
        with a show ?thesis by simp
      qed
    qed
  qed
  then show "inertiaOf vs ls' cs' \<le> inertiaOf vs ls cs"
    and "its < maxIterations \<Longrightarrow> inertiaOf vs ls' cs' \<le> inertiaOf vs (map (bestCluster cs) vs) cs"
    by blast+
qed

lemma chooseCentroids_rows:
  "\<forall>c \<in> set cs. c \<in> set vs \<Longrightarrow>
     \<forall>c \<in> set (chooseCentroids vs targetCentroids maxAttempts safetyCounter s used cs). c \<in> set vs"
proof (induction vs targetCentroids maxAttempts safetyCounter s used cs rule: chooseCentroids.induct)
  case (1 vs targetCentroids maxAttempts safetyCounter s used cs)
  show ?case
  proof (cases "real (length cs) < targetCentroids \<and> safetyCounter < maxAttempts")
    case False
    then have "chooseCentroids vs targetCentroids maxAttempts safetyCounter s used cs = cs"
      by (subst chooseCentroids.simps) auto
    with "1.prems" show ?thesis by simp
  next
    case True
    obtain r s' where rs: "rand s = (r, s')" by (cases "rand s")
    let ?index = "\<lfloor>r * real (length vs)\<rfloor>"
    show ?thesis
    proof (cases "?index \<in> set used")
      case used: True
      from "1.IH"(1)[OF True rs[symmetric] refl used "1.prems"] True rs used show ?thesis
        by (simp add: chooseCentroids.simps[of vs targetCentroids maxAttempts safetyCounter] Let_def)
    next
      case fresh: False
      show ?thesis
      proof (cases "?index < 0 \<or> int (length vs) \<le> ?index \<or> vs ! nat ?index = []")
        case skip: True
        from "1.IH"(2)[OF True rs[symmetric] refl fresh skip "1.prems"] True rs fresh skip show ?thesis
          by (simp add: chooseCentroids.simps[of vs targetCentroids maxAttempts safetyCounter] Let_def)
      next
        case take: False
        then have "nat ?index < length vs" by linarith
        then have "vs ! nat ?index \<in> set vs" by (rule nth_mem)
        with "1.prems" have "\<forall>c \<in> set (cs @ [vs ! nat ?index]). c \<in> set vs" by simp
        from "1.IH"(3)[OF True rs[symmetric] refl fresh take this] True rs fresh take show ?thesis
          by (simp add: chooseCentroids.simps[of vs targetCentroids maxAttempts safetyCounter] Let_def)
      qed
    qed
  qed
qed

subsection \<open>The inertia \<^verbatim>\<open>runKMeans\<close> reports\<close>

text \<open>
  The centroids \<^verbatim>\<open>runKMeans\<close> starts from, and the inertia of the first assignment
  against them.
\<close>

definition initialCentroids :: "(jsval \<Rightarrow> jsnum) \<Rightarrow> SemanticNode list \<Rightarrow> real \<Rightarrow> real list list" where
  "initialCentroids conv data k =
     (let vs = vectors (extractValidEmbeddings conv data);
          targetCentroids = min k (real (length vs))
      in chooseCentroids vs targetCentroids (if targetCentroids = 0 then 0 else length vs * 4) 0
           (createSeededRandom 1993) [] [])"

definition initialInertia :: "(jsval \<Rightarrow> jsnum) \<Rightarrow> SemanticNode list \<Rightarrow> real \<Rightarrow> real" where
  "initialInertia conv data k =
     (let vs = vectors (extractValidEmbeddings conv data);
          cs = initialCentroids conv data k
      in inertiaOf vs (map (bestCluster cs) vs) cs)"

lemma inertiaOf_nonneg: "0 \<le> inertiaOf vs ls cs"
  by (auto simp: inertiaOf_def intro!: sum_list_nonneg)

lemma toFixed_zero: "toFixed 0 3 = 0"
  by (simp add: toFixed_def)

subsection \<open>Facts about runAgglomerative with the target 1\<close>

lemma agglomerate_single:
  assumes "clusters \<noteq> []"
  shows "\<exists>c. agglomerate vs 1 clusters cache = Some [c]"
  using assms
proof (induction vs "1::real" clusters cache rule: agglomerate.induct)
  case (1 vs clusters cache)
  show ?case
  proof (cases "1 < real (length clusters)")
    case False
    with "1.prems" have "length clusters = 1" by (cases clusters) auto
    then obtain c where "clusters = [c]" by (auto simp: length_Suc_conv)
    then show ?thesis by (simp add: agglomerate.simps[of vs 1 "[c]"])
  next
    case True
    then have two: "2 \<le> length clusters" by simp
    obtain bestI bestJ bd cache' where cp: "closestPair vs clusters cache = ((bestI, bestJ, bd), cache')"
      by (metis prod_cases3 surj_pair)
    have j: "bestJ < length clusters" by (rule closestPair_bound[OF two cp])
    have i: "bestI < bestJ" by (rule closestPair_order[OF cp])
    let ?c1 = "splice bestJ 1 [] clusters"
    let ?c2 = "splice bestI 1 [clusters ! bestI @ clusters ! bestJ] ?c1"
    have ne: "?c2 \<noteq> []" by (simp add: splice_def)
    have unfold: "agglomerate vs 1 clusters cache = agglomerate vs 1 ?c2 cache'"
      using True cp j by (simp add: agglomerate.simps[of vs 1 clusters] Let_def)
    from "1.hyps"[OF True cp[symmetric] refl refl _ refl refl refl ne] j
    show ?thesis unfolding unfold by simp
  qed
qed

lemma clusterLabels_single: "clusterLabels n [c] = replicate n 0"
proof (rule replicate_eqI)
  show "length (clusterLabels n [c]) = n"
    by (rule clusterLabels_range(2)) simp
next
  fix y assume "y \<in> set (clusterLabels n [c])"
  with clusterLabels_range(1)[of "[c]" n] show "y = 0" by auto
qed

lemma fullLabels_constant:
  assumes "\<forall>i \<in> set idxs. i < n"
  shows "fullLabels n idxs (replicate (length idxs) c) = map (\<lambda>i. if i \<in> set idxs then c else - 1) [0..<n]"
  using assms
proof (induction idxs rule: rev_induct)
  case Nil
  show ?case by (simp add: fullLabels_def map_replicate_const)
next
  case (snoc x xs)
  have eq: "fullLabels n xs (replicate (length (xs @ [x])) c) = fullLabels n xs (replicate (length xs) c)"
  proof -
    have "\<forall>k < length xs. replicate (length (xs @ [x])) c ! k = replicate (length xs) c ! k"
      by (simp add: nth_Cons')
    then show ?thesis
      unfolding fullLabels_def
      by (intro foldl_cong refl) (auto simp: in_set_enumerate_eq)
  qed
  from snoc have IH: "fullLabels n xs (replicate (length xs) c) = map (\<lambda>i. if i \<in> set xs then c else - 1) [0..<n]"
    by simp
  have v: "replicate (length (xs @ [x])) c ! length xs = c"
    by (simp only: nth_replicate length_append_singleton lessI)
  show ?case
    unfolding fullLabels_snoc eq IH v
  proof (rule nth_equalityI)
    show "length ((map (\<lambda>i. if i \<in> set xs then c else - 1) [0..<n])[x := c])
        = length (map (\<lambda>i. if i \<in> set (xs @ [x]) then c else - 1) [0..<n])"
      by simp
  next
    fix i assume "i < length ((map (\<lambda>i. if i \<in> set xs then c else - 1) [0..<n])[x := c])"
    then have i: "i < n" by simp
    show "(map (\<lambda>i. if i \<in> set xs then c else - 1) [0..<n])[x := c] ! i
        = map (\<lambda>i. if i \<in> set (xs @ [x]) then c else - 1) [0..<n] ! i"
      using i by (cases "i = x") (simp_all add: nth_list_update)
  qed
qed

lemma kept_iff_indexed:
  "i < length data \<Longrightarrow>
     i \<in> set (indices (extractValidEmbeddings conv data)) \<longleftrightarrow> hasElement (embedding (data ! i))"
  by (simp add: extract_indices)

lemma kept_vectors:
  assumes "list_ex (\<lambda>item. hasElement (embedding item)) data"
  shows "data \<noteq> []" "vectors (extractValidEmbeddings conv data) \<noteq> []"
    "dimension (extractValidEmbeddings conv data) \<noteq> 0"
proof -
  from assms show "data \<noteq> []" by auto
  from assms obtain i where "i < length data" "hasElement (embedding (data ! i))"
    by (auto simp: list_ex_iff in_set_conv_nth)
  then have "i \<in> set (indices (extractValidEmbeddings conv data))"
    by (simp add: kept_iff_indexed)
  then have "indices (extractValidEmbeddings conv data) \<noteq> []" by auto
  with extract_rowsOk[of conv data] show "vectors (extractValidEmbeddings conv data) \<noteq> []"
    "dimension (extractValidEmbeddings conv data) \<noteq> 0"
    by (auto simp: rowsOk_def)
qed

lemma runAgglomerative_one:
  assumes "list_ex (\<lambda>item. hasElement (embedding item)) data"
  shows "\<exists>centroid. runAgglomerative conv data 1 =
           Some \<lparr>labels = map (\<lambda>i. if hasElement (embedding (data ! i)) then 0 else - 1) [0..<length data],
                 centroids = [centroid], iterations = None, inertia = None, noiseCount = None\<rparr>"
proof -
  let ?ex = "extractValidEmbeddings conv data"
  let ?vs = "vectors ?ex"
  note k = kept_vectors(1)[OF assms] kept_vectors(2)[OF assms, of conv] kept_vectors(3)[OF assms, of conv]
  have "map (\<lambda>idx. [idx]) [0..<length ?vs] \<noteq> []" using k(2) by simp
  from agglomerate_single[OF this, of ?vs Map.empty] obtain c where
    c: "agglomerate ?vs 1 (map (\<lambda>idx. [idx]) [0..<length ?vs]) Map.empty = Some [c]"
    by blast
  have len: "length ?vs = length (indices ?ex)"
    using extract_rowsOk[of conv data] by (simp add: rowsOk_def)
  have "fullLabels (length data) (indices ?ex) (map int (clusterLabels (length ?vs) [c]))
      = map (\<lambda>i. if i \<in> set (indices ?ex) then 0 else - 1) [0..<length data]"
    using fullLabels_constant[OF extract_indices_ok(2)[of conv data], of 0]
    by (simp add: clusterLabels_single len)
  also have "\<dots> = map (\<lambda>i. if hasElement (embedding (data ! i)) then 0 else - 1) [0..<length data]"
    by (rule map_cong) (simp_all add: kept_iff_indexed)
  finally have lab: "fullLabels (length data) (indices ?ex) (map int (clusterLabels (length ?vs) [c]))
      = map (\<lambda>i. if hasElement (embedding (data ! i)) then 0 else - 1) [0..<length data]" .
  have "runAgglomerative conv data 1 =
      Some \<lparr>labels = fullLabels (length data) (indices ?ex) (map int (clusterLabels (length ?vs) [c])),
            centroids = [meanOf (dimension ?ex) ?vs c], iterations = None, inertia = None, noiseCount = None\<rparr>"
    using k c by (simp add: runAgglomerative_def Let_def)
  then show ?thesis unfolding lab by blast
qed

subsection \<open>Facts about the seeded generator\<close>

text \<open>
  The generator divides a signed 32-bit integer by \<open>2\<^sup>3\<^sup>2\<close>: its values lie between
  \<open>-1/2\<close> and \<open>1/2\<close>, so \<^verbatim>\<open>Math.floor(rand() * n)\<close> is negative or below \<open>n / 2\<close>.
\<close>

lemma rand_range: "- (1 / 2) \<le> fst (rand s) \<and> fst (rand s) < 1 / 2"
proof -
  define s3 where "s3 = snd (rand s)"
  have r: "fst (rand s) = real_of_int (sint s3) / 4294967296"
    by (simp add: rand_def Let_def s3_def)
  have "- (2 ^ (LENGTH(32) - 1)) \<le> sint s3" "sint s3 < 2 ^ (LENGTH(32) - 1)"
    by (rule sint_ge, rule sint_lt)
  then have "- 2147483648 \<le> sint s3" "sint s3 < 2147483648" by simp_all
  then have "- 2147483648 \<le> real_of_int (sint s3)" "real_of_int (sint s3) < 2147483648"
    by linarith+
  then show ?thesis unfolding r by simp
qed

lemma index_first_half:
  assumes "rand s = (r, s')" "0 \<le> \<lfloor>r * real n\<rfloor>" "\<lfloor>r * real n\<rfloor> < int n"
  shows "2 * nat \<lfloor>r * real n\<rfloor> < n"
proof -
  from rand_range[of s] assms(1) have r: "r < 1 / 2" by simp
  from assms(2,3) have n: "0 < n" by linarith
  have "real_of_int \<lfloor>r * real n\<rfloor> \<le> r * real n" by (rule of_int_floor_le)
  also have "\<dots> < real n / 2" using r n by simp
  finally have "2 * real_of_int \<lfloor>r * real n\<rfloor> < real n" by simp
  then have "2 * \<lfloor>r * real n\<rfloor> < int n" by linarith
  with assms(2) show ?thesis by linarith
qed

text \<open>The rows whose index is below half the number of rows.\<close>

definition firstHalf :: "real list list \<Rightarrow> real list list" where
  "firstHalf vs = take ((length vs + 1) div 2) vs"

lemma firstHalf_nth: "2 * i < length vs \<Longrightarrow> vs ! i \<in> set (firstHalf vs)"
proof -
  assume "2 * i < length vs"
  then have "i < (length vs + 1) div 2" "i < length vs" by linarith+
  then show ?thesis
    unfolding firstHalf_def by (auto simp: in_set_conv_nth intro!: exI[of _ i])
qed

lemma chooseCentroids_first_half:
  "\<forall>c \<in> set cs. c \<in> set (firstHalf vs) \<Longrightarrow>
     \<forall>c \<in> set (chooseCentroids vs targetCentroids maxAttempts safetyCounter s used cs).
       c \<in> set (firstHalf vs)"
proof (induction vs targetCentroids maxAttempts safetyCounter s used cs rule: chooseCentroids.induct)
  case (1 vs targetCentroids maxAttempts safetyCounter s used cs)
  show ?case
  proof (cases "real (length cs) < targetCentroids \<and> safetyCounter < maxAttempts")
    case False
    then have "chooseCentroids vs targetCentroids maxAttempts safetyCounter s used cs = cs"
      by (subst chooseCentroids.simps) auto
    with "1.prems" show ?thesis by simp
  next
    case True
    obtain r s' where rs: "rand s = (r, s')" by (cases "rand s")
    let ?index = "\<lfloor>r * real (length vs)\<rfloor>"
    show ?thesis
    proof (cases "?index \<in> set used")
      case used: True
      from "1.IH"(1)[OF True rs[symmetric] refl used "1.prems"] True rs used show ?thesis
        by (simp add: chooseCentroids.simps[of vs targetCentroids maxAttempts safetyCounter] Let_def)
    next
      case fresh: False
      show ?thesis
      proof (cases "?index < 0 \<or> int (length vs) \<le> ?index \<or> vs ! nat ?index = []")
        case skip: True
        from "1.IH"(2)[OF True rs[symmetric] refl fresh skip "1.prems"] True rs fresh skip show ?thesis
          by (simp add: chooseCentroids.simps[of vs targetCentroids maxAttempts safetyCounter] Let_def)
      next
        case take: False
        then have "0 \<le> ?index" "?index < int (length vs)" by linarith+
        from index_first_half[OF rs this] have "vs ! nat ?index \<in> set (firstHalf vs)"
          by (rule firstHalf_nth)
        with "1.prems" have "\<forall>c \<in> set (cs @ [vs ! nat ?index]). c \<in> set (firstHalf vs)" by simp
        from "1.IH"(3)[OF True rs[symmetric] refl fresh take this] True rs fresh take show ?thesis
          by (simp add: chooseCentroids.simps[of vs targetCentroids maxAttempts safetyCounter] Let_def)
      qed
    qed
  qed
qed

text \<open>
  The states of the generator seeded with \<open>1993\<close> after its first three calls, the index
  \<^verbatim>\<open>Math.floor(rand() * 4)\<close> each gives, and the index the same state gives when its 32
  bits are read unsigned.
\<close>

lemma draws_signed_unsigned:
  "snd (rand (createSeededRandom 1993)) = 534630677"
  "snd (rand 534630677) = 437575338"
  "snd (rand 437575338) = 3119879946"
  "\<lfloor>fst (rand (createSeededRandom 1993)) * 4\<rfloor> = 0"
  "\<lfloor>fst (rand 534630677) * 4\<rfloor> = 0"
  "\<lfloor>fst (rand 437575338) * 4\<rfloor> = - 2"
  "\<lfloor>real (unat (534630677 :: 32 word)) / 4294967296 * 4\<rfloor> = 0"
  "\<lfloor>real (unat (437575338 :: 32 word)) / 4294967296 * 4\<rfloor> = 0"
  "\<lfloor>real (unat (3119879946 :: 32 word)) / 4294967296 * 4\<rfloor> = 2"
  by (simp_all add: rand_def createSeededRandom_def Let_def)

text \<open>The first four values of the generator seeded with \<open>1993\<close>.\<close>

lemma draws_1993:
  "rand (createSeededRandom 1993) = (534630677 / 4294967296, 534630677)"
  "rand 534630677 = (437575338 / 4294967296, 437575338)"
  "rand 437575338 = (- 1175087350 / 4294967296, 3119879946)"
  "rand 3119879946 = (1770947200 / 4294967296, 1770947200)"
  by (simp_all add: rand_def createSeededRandom_def Let_def)

lemma initialCentroids_first_half:
  "\<forall>c \<in> set (initialCentroids conv data k).
     c \<in> set (firstHalf (vectors (extractValidEmbeddings conv data)))"
  unfolding initialCentroids_def Let_def by (rule chooseCentroids_first_half) simp

subsection \<open>enrichedNodes and clusterInsights\<close>

text \<open>
  \<^verbatim>\<open>ProjectedNode\<close> adds \<^verbatim>\<open>x\<close>, \<^verbatim>\<open>y\<close> and \<^verbatim>\<open>clusterId\<close> to a node; the coordinates are
  the fields \<open>xPos\<close> and \<open>yPos\<close> here.
\<close>

record ProjectedNode = SemanticNode +
  xPos :: real
  yPos :: real
  clusterId :: int

text \<open>
  \<^verbatim>\<open>projected[idx]?.x ?? 0\<close> and \<^verbatim>\<open>clustering.labels[idx] ?? -1\<close>: a read past the end gives
  the default.
\<close>

definition enrichedNodes :: "SemanticNode list \<Rightarrow> (real \<times> real) list \<Rightarrow> int list \<Rightarrow> ProjectedNode list" where
  "enrichedNodes baseNodes projected lbls =
     map (\<lambda>p. case p of (idx, n) \<Rightarrow>
            \<lparr>key = key n, region = region n, embedding = embedding n,
             volatility = volatility n, velocity = velocity n,
             xPos = (if idx < length projected then fst (projected ! idx) else 0),
             yPos = (if idx < length projected then snd (projected ! idx) else 0),
             clusterId = (if idx < length lbls then lbls ! idx else - 1)\<rparr>)
       (List.enumerate 0 baseNodes)"

text \<open>
  The fields of \<^verbatim>\<open>ClusterInsight\<close>, without the display string \<^verbatim>\<open>label\<close>; \<^verbatim>\<open>id\<close> and
  \<^verbatim>\<open>size\<close> are \<open>id'\<close> and \<open>size'\<close>.
\<close>

record ClusterInsight =
  id' :: int
  size' :: nat
  avgVolatility :: real
  avgVelocity :: real
  topRegions :: "string list"
  sampleKeys :: "string list"

text \<open>
  The \<^verbatim>\<open>Map\<close> \<^verbatim>\<open>grouped\<close>, as the list of its entries in insertion order: a new key goes to
  the end, a known key keeps its place and its bucket grows.
\<close>

fun groupInsert :: "(int \<times> ProjectedNode list) list \<Rightarrow> ProjectedNode \<Rightarrow> (int \<times> ProjectedNode list) list" where
  "groupInsert [] n = [(clusterId n, [n])]"
| "groupInsert ((k, bucket) # rest) n =
     (if k = clusterId n then (k, bucket @ [n]) # rest else (k, bucket) # groupInsert rest n)"

definition grouped :: "ProjectedNode list \<Rightarrow> (int \<times> ProjectedNode list) list" where
  "grouped ns = foldl groupInsert [] ns"

text \<open>
  \<^verbatim>\<open>regionCount\<close> is a plain object. \<^verbatim>\<open>Object.entries\<close> lists first the keys that are
  array indices (canonical decimal strings below \<open>2\<^sup>3\<^sup>2 - 1\<close>) in ascending numeric order,
  then the other keys in insertion order.
\<close>

fun countInsert :: "(string \<times> nat) list \<Rightarrow> string \<Rightarrow> (string \<times> nat) list" where
  "countInsert [] r = [(r, 1)]"
| "countInsert ((k, c) # rest) r =
     (if k = r then (k, c + 1) # rest else (k, c) # countInsert rest r)"

definition digitsValue :: "string \<Rightarrow> nat" where
  "digitsValue s = foldl (\<lambda>acc c. 10 * acc + (of_char c - 48)) 0 s"

definition isArrayIndex :: "string \<Rightarrow> bool" where
  "isArrayIndex s =
     (s \<noteq> [] \<and> list_all (\<lambda>c. 48 \<le> (of_char c :: nat) \<and> (of_char c :: nat) \<le> 57) s
      \<and> (s = ''0'' \<or> hd s \<noteq> CHR ''0'') \<and> digitsValue s < 2 ^ 32 - 1)"

definition objectEntries :: "(string \<times> nat) list \<Rightarrow> (string \<times> nat) list" where
  "objectEntries props =
     sort_key (\<lambda>p. digitsValue (fst p)) (filter (\<lambda>p. isArrayIndex (fst p)) props)
     @ filter (\<lambda>p. \<not> isArrayIndex (fst p)) props"

text \<open>
  \<^verbatim>\<open>Array.prototype.sort\<close> is stable; so is \<open>sort_key\<close>. The comparator \<^verbatim>\<open>b - a\<close> orders by
  descending value.
\<close>

definition insightOf :: "int \<times> ProjectedNode list \<Rightarrow> ClusterInsight" where
  "insightOf entry =
     (case entry of (cid, ns) \<Rightarrow>
        let denominator = (if length ns = 0 then 1 else real (length ns));
            avgVol = (\<Sum>n\<leftarrow>ns. volatility n) / denominator;
            avgVel = (\<Sum>n\<leftarrow>ns. velocity n) / denominator;
            regionCount = foldl countInsert [] (map region ns)
        in \<lparr>id' = cid,
            size' = length ns,
            avgVolatility = toFixed avgVol 3,
            avgVelocity = toFixed avgVel 3,
            topRegions = map fst (take 2 (sort_key (\<lambda>p. - int (snd p)) (objectEntries regionCount))),
            sampleKeys = map key (take 4 ns)\<rparr>)"

definition clusterInsights :: "ProjectedNode list \<Rightarrow> ClusterInsight list" where
  "clusterInsights ns = sort_key (\<lambda>insight. - int (size' insight)) (map insightOf (grouped ns))"

subsection \<open>Facts about clusterInsights\<close>

lemma groupInsert_keys:
  "map fst (groupInsert g n) = (if clusterId n \<in> fst ` set g then map fst g else map fst g @ [clusterId n])"
  by (induction g n rule: groupInsert.induct) auto

lemma groupInsert_lookup:
  "distinct (map fst g) \<Longrightarrow>
     map_of (groupInsert g n) k =
       (if k = clusterId n then Some ((case map_of g k of None \<Rightarrow> [] | Some b \<Rightarrow> b) @ [n]) else map_of g k)"
  by (induction g n rule: groupInsert.induct) (auto simp: map_of_eq_None_iff image_iff)

definition groupedOk :: "ProjectedNode list \<Rightarrow> (int \<times> ProjectedNode list) list \<Rightarrow> bool" where
  "groupedOk ns g =
     (distinct (map fst g) \<and> fst ` set g = clusterId ` set ns \<and>
      (\<forall>k. map_of g k = (if k \<in> clusterId ` set ns then Some (filter (\<lambda>n. clusterId n = k) ns) else None)))"

lemma groupedOk_step:
  assumes "groupedOk ns g"
  shows "groupedOk (ns @ [n]) (groupInsert g n)"
proof -
  from assms have d: "distinct (map fst g)" and k: "fst ` set g = clusterId ` set ns"
    and m: "\<And>k. map_of g k =
        (if k \<in> clusterId ` set ns then Some (filter (\<lambda>n. clusterId n = k) ns) else None)"
    by (simp_all add: groupedOk_def)
  have keys: "set (map fst (groupInsert g n)) = insert (clusterId n) (fst ` set g)"
    by (auto simp: groupInsert_keys)
  have d': "distinct (map fst (groupInsert g n))"
    using d by (simp add: groupInsert_keys)
  have k': "fst ` set (groupInsert g n) = clusterId ` set (ns @ [n])"
    using keys k by auto
  have m': "map_of (groupInsert g n) k =
        (if k \<in> clusterId ` set (ns @ [n]) then Some (filter (\<lambda>n. clusterId n = k) (ns @ [n])) else None)"
    for k
  proof (cases "k = clusterId n")
    case True
    show ?thesis
    proof (cases "clusterId n \<in> clusterId ` set ns")
      case True
      with \<open>k = clusterId n\<close> m[of k] show ?thesis
        by (simp add: groupInsert_lookup[OF d])
    next
      case False
      then have "\<forall>x \<in> set ns. clusterId x \<noteq> clusterId n"
        by (metis imageI)
      then have "filter (\<lambda>x. clusterId x = clusterId n) ns = []"
        by (simp add: filter_empty_conv)
      with False \<open>k = clusterId n\<close> m[of k] show ?thesis
        by (simp add: groupInsert_lookup[OF d])
    qed
  next
    case False
    with m[of k] show ?thesis
      by (simp add: groupInsert_lookup[OF d])
  qed
  show ?thesis
    unfolding groupedOk_def using d' k' m' by blast
qed

lemma groupedOk_foldl: "groupedOk ns g \<Longrightarrow> groupedOk (ns @ ms) (foldl groupInsert g ms)"
proof (induction ms arbitrary: ns g)
  case Nil
  then show ?case by simp
next
  case (Cons m ms)
  from Cons.IH[OF groupedOk_step[OF Cons.prems, of m]] show ?case by simp
qed

lemma groupedOk_grouped: "groupedOk ns (grouped ns)"
  using groupedOk_foldl[of "[]" "[]" ns] by (simp add: grouped_def groupedOk_def)

lemma grouped_bucket:
  assumes "(k, b) \<in> set (grouped ns)"
  shows "b = filter (\<lambda>n. clusterId n = k) ns"
proof -
  have ok: "groupedOk ns (grouped ns)" by (rule groupedOk_grouped)
  then have "distinct (map fst (grouped ns))" by (simp add: groupedOk_def)
  with assms have "map_of (grouped ns) k = Some b" by simp
  with ok show ?thesis by (auto simp: groupedOk_def split: if_splits)
qed

lemma insightOf_id: "id' (insightOf (k, b)) = k"
  by (simp add: insightOf_def Let_def)

lemma insightOf_size: "size' (insightOf (k, b)) = length b"
  by (simp add: insightOf_def Let_def)

lemma distinct_map_sort_key: "distinct (map g (sort_key f xs)) = distinct (map g xs)"
  by (simp add: distinct_map)

lemma set_map_sort_key: "set (map g (sort_key f xs)) = set (map g xs)"
  by simp

subsection \<open>projectTo2D\<close>

text \<open>
  \<^verbatim>\<open>projectTo2D\<close> does not test its input. It calls \<^verbatim>\<open>forEach\<close> and \<^verbatim>\<open>map\<close> on every
  \<^verbatim>\<open>embedding\<close>, which throws a \<^verbatim>\<open>TypeError\<close> unless the field is an array: the result
  \<open>None\<close>. The entries of the arrays are read as the finite numbers the type declares; the
  value at any other entry, and the value of a read past the end of a row, are left
  unspecified (the source computes \<^verbatim>\<open>NaN\<close> there), so the statements about coordinates
  below are made for batches of finite numbers only.
\<close>

fun numberOf :: "jsval \<Rightarrow> real" where
  "numberOf (JNumber (Fin r)) = r"

fun arrayOf :: "jsval \<Rightarrow> real list option" where
  "arrayOf (JArray xs) = Some (map numberOf xs)"
| "arrayOf _ = None"

record projection =
  components :: "real list list"
  projected :: "(real \<times> real) list"

text \<open>\<^verbatim>\<open>vecA.reduce((acc, val, idx) => acc + val * (vecB[idx] ?? 0), 0)\<close>\<close>

definition dotProduct :: "real list \<Rightarrow> real list \<Rightarrow> real" where
  "dotProduct vecA vecB =
     foldl (\<lambda>acc p. case p of (idx, val) \<Rightarrow> acc + val * (if idx < length vecB then vecB ! idx else 0))
       0 (List.enumerate 0 vecA)"

text \<open>\<^verbatim>\<open>normalize\<close>: the divisor is the norm, or \<open>1\<close> when the norm is \<open>0\<close> (\<^verbatim>\<open>|| 1\<close>).\<close>

definition normalize :: "real list \<Rightarrow> real list" where
  "normalize vec =
     (let root = sqrt (foldl (\<lambda>acc val. acc + val * val) 0 vec);
          norm = (if root = 0 then 1 else root)
      in map (\<lambda>val. val / norm) vec)"

text \<open>One round of the loop of \<^verbatim>\<open>powerIteration\<close>.\<close>

definition multiply :: "real list list \<Rightarrow> real list \<Rightarrow> real list" where
  "multiply matrix vector =
     foldl (\<lambda>next i. next[i := foldl (\<lambda>acc j. acc + matrix ! i ! j * vector ! j) (next ! i)
                                  [0..<length matrix]])
       (replicate (length vector) 0) [0..<length matrix]"

definition deflate :: "real list \<Rightarrow> real list \<Rightarrow> real list" where
  "deflate next basis =
     (let dot = foldl (\<lambda>acc p. case p of (idx, val) \<Rightarrow> acc + val * basis ! idx) 0 (List.enumerate 0 next)
      in map (\<lambda>p. case p of (k, val) \<Rightarrow> val - dot * basis ! k) (List.enumerate 0 next))"

definition powerStep :: "real list list \<Rightarrow> real list list \<Rightarrow> real list \<Rightarrow> real list" where
  "powerStep matrix orthogonalTo vector = normalize (foldl deflate (multiply matrix vector) orthogonalTo)"

text \<open>
  \<^verbatim>\<open>Math.random()\<close> is the environment: \<open>rnd n\<close> is the value of its \<open>n\<close>-th call during
  one run of \<^verbatim>\<open>projectTo2D\<close>, and \<open>drawn\<close> counts the calls made before. The result is the
  pair \<^verbatim>\<open>(eigenvalue, eigenvector)\<close>.
\<close>

definition powerIteration ::
  "(nat \<Rightarrow> real) \<Rightarrow> nat \<Rightarrow> real list list \<Rightarrow> real list list \<Rightarrow> nat \<Rightarrow> real \<times> real list" where
  "powerIteration rnd drawn matrix orthogonalTo iters =
     (let start = normalize (map (\<lambda>i. rnd (drawn + i)) [0..<length matrix]);
          vector = ((powerStep matrix orthogonalTo) ^^ iters) start;
          eigenvalue = foldl (\<lambda>acc p. case p of (idx, val) \<Rightarrow> acc + val * dotProduct (matrix ! idx) vector)
                         0 (List.enumerate 0 vector)
      in (eigenvalue, vector))"

text \<open>The mean, the centred rows and the covariance matrix.\<close>

definition meanVector :: "nat \<Rightarrow> real list list \<Rightarrow> real list" where
  "meanVector dimn rows =
     map (\<lambda>total. total / real (length rows))
       (foldl (\<lambda>mean row.
                 foldl (\<lambda>mean p. case p of (idx, value) \<Rightarrow> mean[idx := mean ! idx + value])
                   mean (List.enumerate 0 row))
          (replicate dimn 0) rows)"

definition centerRows :: "real list \<Rightarrow> real list list \<Rightarrow> real list list" where
  "centerRows mean rows =
     map (\<lambda>row. map (\<lambda>p. case p of (idx, value) \<Rightarrow> value - mean ! idx) (List.enumerate 0 row)) rows"

definition upperPairs :: "nat \<Rightarrow> (nat \<times> nat) list" where
  "upperPairs dimn = concat (map (\<lambda>i. map (\<lambda>j. (i, j)) [i..<dimn]) [0..<dimn])"

definition covarianceOf :: "nat \<Rightarrow> nat \<Rightarrow> real list list \<Rightarrow> real list list" where
  "covarianceOf dimn n centered =
     (let totals =
            foldl (\<lambda>cov vector.
                     foldl (\<lambda>cov p. case p of (i, j) \<Rightarrow>
                              cov[i := (cov ! i)[j := cov ! i ! j + vector ! i * vector ! j]])
                       cov (upperPairs dimn))
              (replicate dimn (replicate dimn 0)) centered;
          divisor = (if n - 1 = 0 then 1 else real (n - 1))
      in foldl (\<lambda>cov p. case p of (i, j) \<Rightarrow>
                  let value = cov ! i ! j / divisor;
                      cov1 = cov[i := (cov ! i)[j := value]]
                  in cov1[j := (cov1 ! j)[i := value]])
           totals (upperPairs dimn))"

definition projectRows :: "(nat \<Rightarrow> real) \<Rightarrow> real list list \<Rightarrow> projection" where
  "projectRows rnd rows =
     (let dimn = length (rows ! 0);
          mean = meanVector dimn rows;
          centered = centerRows mean rows;
          covariance = covarianceOf dimn (length rows) centered;
          first = snd (powerIteration rnd 0 covariance [] 120);
          second = snd (powerIteration rnd dimn covariance [first] 120)
      in \<lparr>components = [first, second],
          projected = map (\<lambda>vector. (dotProduct vector first, dotProduct vector second)) centered\<rparr>)"

definition projectTo2D :: "(nat \<Rightarrow> real) \<Rightarrow> SemanticNode list \<Rightarrow> projection option" where
  "projectTo2D rnd data =
     (if data = [] then Some \<lparr>components = [], projected = []\<rparr>
      else
        (case those (map (\<lambda>n. arrayOf (embedding n)) data) of
           None \<Rightarrow> None
         | Some rows \<Rightarrow> Some (projectRows rnd rows)))"

subsection \<open>Facts about projectTo2D\<close>

lemma length_foldl_update:
  "length (foldl (\<lambda>acc p. acc[f acc p := g acc p]) xs ps) = length xs"
  by (induction ps arbitrary: xs) simp_all

lemma length_normalize: "length (normalize v) = length v"
  by (simp add: normalize_def Let_def)

lemma length_multiply: "length (multiply matrix vector) = length vector"
  unfolding multiply_def
  using length_foldl_update[where f = "\<lambda>acc p. p" and xs = "replicate (length vector) 0"]
  by simp

lemma length_deflate: "length (deflate nxt basis) = length nxt"
  by (simp add: deflate_def Let_def)

lemma length_foldl_deflate: "length (foldl deflate nxt bs) = length nxt"
  by (induction bs arbitrary: nxt) (simp_all add: length_deflate)

lemma length_powerStep: "length (powerStep matrix orthogonalTo vector) = length vector"
  by (simp add: powerStep_def length_normalize length_foldl_deflate length_multiply)

lemma length_funpow_powerStep:
  "length (((powerStep matrix orthogonalTo) ^^ n) v) = length v"
  by (induction n) (simp_all add: length_powerStep)

lemma length_powerIteration:
  "length (snd (powerIteration rnd drawn matrix orthogonalTo iters)) = length matrix"
  by (simp add: powerIteration_def Let_def length_funpow_powerStep length_normalize)

lemma length_covarianceOf: "length (covarianceOf dimn n centered) = dimn"
proof -
  let ?add = "\<lambda>vector cov p. case p of (i, j) \<Rightarrow>
      cov[i := (cov ! i)[j := cov ! i ! j + vector ! i * vector ! j]]"
  let ?totals = "foldl (\<lambda>cov vector. foldl (?add vector) cov (upperPairs dimn))
      (replicate dimn (replicate dimn (0::real))) centered"
  have inner: "length (foldl (?add vector) cov ps) = length cov" for vector cov ps
    by (rule length_foldl_preserve) (simp add: split_beta)
  have totals: "length ?totals = dimn"
    using length_foldl_preserve[where f = "\<lambda>cov vector. foldl (?add vector) cov (upperPairs dimn)"
        and xs = "replicate dimn (replicate dimn (0::real))" and ps = centered, OF inner]
    by simp
  have "length (foldl (\<lambda>cov p. case p of (i, j) \<Rightarrow>
                  let value = cov ! i ! j / d;
                      cov1 = cov[i := (cov ! i)[j := value]]
                  in cov1[j := (cov1 ! j)[i := value]]) ?totals (upperPairs dimn)) = length ?totals" for d
    by (rule length_foldl_preserve) (simp add: split_beta Let_def)
  then show ?thesis
    unfolding covarianceOf_def Let_def by (simp only: totals)
qed

lemma projectRows_shape:
  "length (projected (projectRows rnd rows)) = length rows"
  "map length (components (projectRows rnd rows)) = [length (rows ! 0), length (rows ! 0)]"
  by (simp_all add: projectRows_def Let_def centerRows_def length_powerIteration length_covarianceOf)

definition isArray :: "jsval \<Rightarrow> bool" where
  "isArray v = (case v of JArray xs \<Rightarrow> True | _ \<Rightarrow> False)"

definition arrayLength :: "jsval \<Rightarrow> nat" where
  "arrayLength v = (case v of JArray xs \<Rightarrow> length xs | _ \<Rightarrow> 0)"

lemma those_arrays:
  "list_all (\<lambda>n. isArray (embedding n)) data \<Longrightarrow>
     \<exists>rows. those (map (\<lambda>n. arrayOf (embedding n)) data) = Some rows \<and> length rows = length data
        \<and> (\<forall>i < length data. length (rows ! i) = arrayLength (embedding (data ! i)))"
proof (induction data)
  case Nil
  then show ?case by simp
next
  case (Cons n data)
  then obtain rows where r: "those (map (\<lambda>n. arrayOf (embedding n)) data) = Some rows"
      "length rows = length data"
      "\<forall>i < length data. length (rows ! i) = arrayLength (embedding (data ! i))"
    by auto
  from Cons.prems obtain xs where xs: "embedding n = JArray xs"
    by (auto simp: isArray_def split: jsval.splits)
  show ?case
    using r xs by (auto simp: arrayLength_def nth_Cons split: nat.splits)
qed

lemma those_not_array:
  "\<not> list_all (\<lambda>n. isArray (embedding n)) data \<Longrightarrow>
     those (map (\<lambda>n. arrayOf (embedding n)) data) = None"
proof (induction data)
  case Nil
  then show ?case by simp
next
  case (Cons n data)
  then show ?case
    by (cases "embedding n") (auto simp: isArray_def split: option.splits)
qed

subsection \<open>Facts about the basis vectors\<close>

text \<open>The squared norm, as \<^verbatim>\<open>normalize\<close> sums it.\<close>

definition normSq :: "real list \<Rightarrow> real" where
  "normSq vec = foldl (\<lambda>acc val. acc + val * val) 0 vec"

lemma foldl_add_sum_list:
  "foldl (\<lambda>acc x. acc + f x) a xs = a + sum_list (map f xs)"
  for a :: real
  by (induction xs arbitrary: a) simp_all

lemma foldl_enumerate_sum:
  "foldl (\<lambda>acc p. case p of (idx, val) \<Rightarrow> acc + g idx val) a (List.enumerate k xs)
     = a + (\<Sum>i<length xs. g (k + i) (xs ! i))"
  for a :: real
proof (induction xs arbitrary: a k)
  case Nil
  then show ?case by simp
next
  case (Cons x xs)
  have "(\<Sum>i<Suc (length xs). g (k + i) ((x # xs) ! i))
      = g k x + (\<Sum>i<length xs. g (Suc k + i) (xs ! i))"
    by (simp add: sum.lessThan_Suc_shift del: sum.lessThan_Suc)
  then show ?case
    by (simp add: Cons.IH del: sum.lessThan_Suc)
qed

lemma foldl_enumerate_sum0:
  "foldl (\<lambda>acc p. case p of (idx, val) \<Rightarrow> acc + g idx val) 0 (List.enumerate 0 xs)
     = (\<Sum>i<length xs. g i (xs ! i))"
  for g :: "nat \<Rightarrow> real \<Rightarrow> real"
  by (simp add: foldl_enumerate_sum)

lemma normSq_sum: "normSq v = (\<Sum>i<length v. v ! i * v ! i)"
proof -
  have "normSq v = sum_list (map (\<lambda>x. x * x) v)"
    by (simp add: normSq_def foldl_add_sum_list)
  also have "\<dots> = (\<Sum>i<length v. v ! i * v ! i)"
    by (simp add: sum_list_sum_nth atLeast0LessThan)
  finally show ?thesis .
qed

lemma normSq_nonneg: "0 \<le> normSq v"
  by (simp add: normSq_sum sum_nonneg)

lemma normSq_zero: "normSq v = 0 \<Longrightarrow> v = replicate (length v) 0"
proof -
  assume "normSq v = 0"
  then have "(\<Sum>i<length v. v ! i * v ! i) = 0" by (simp add: normSq_sum)
  then have "\<forall>i \<in> {..<length v}. v ! i * v ! i = 0"
    by (subst (asm) sum_nonneg_eq_0_iff) simp_all
  then show ?thesis
    by (simp add: list_eq_iff_nth_eq)
qed

lemma normalize_nth:
  "i < length v \<Longrightarrow>
     normalize v ! i = v ! i / (if sqrt (normSq v) = 0 then 1 else sqrt (normSq v))"
  by (simp add: normalize_def normSq_def Let_def)

lemma normalize_unit_or_zero:
  "normSq (normalize v) = 1 \<or> normalize v = replicate (length (normalize v)) 0"
proof (cases "normSq v = 0")
  case True
  then have "normalize v = v"
    by (simp add: list_eq_iff_nth_eq normalize_nth length_normalize)
  with normSq_zero[OF True] show ?thesis by simp
next
  case False
  with normSq_nonneg[of v] have pos: "0 < normSq v" by simp
  let ?r = "sqrt (normSq v)"
  have r: "?r \<noteq> 0" "?r * ?r = normSq v" using pos by simp_all
  have "normSq (normalize v) = (\<Sum>i<length v. (v ! i / ?r) * (v ! i / ?r))"
    using r(1) by (simp add: normSq_sum length_normalize normalize_nth)
  also have "\<dots> = (\<Sum>i<length v. (v ! i * v ! i) / (?r * ?r))"
    by simp
  also have "\<dots> = (\<Sum>i<length v. v ! i * v ! i) / (?r * ?r)"
    by (simp add: sum_divide_distrib)
  also have "\<dots> = 1"
    using pos by (simp add: r(2) normSq_sum[symmetric])
  finally show ?thesis by simp
qed

lemma dotProduct_sum:
  "length a \<le> length b \<Longrightarrow> dotProduct a b = (\<Sum>i<length a. a ! i * b ! i)"
proof -
  assume le: "length a \<le> length b"
  have "dotProduct a b = (\<Sum>i<length a. a ! i * (if i < length b then b ! i else 0))"
    unfolding dotProduct_def
    by (rule foldl_enumerate_sum0[where g = "\<lambda>idx val. val * (if idx < length b then b ! idx else 0)"])
  also have "\<dots> = (\<Sum>i<length a. a ! i * b ! i)"
    using le by (intro sum.cong) auto
  finally show ?thesis .
qed

lemma deflate_nth:
  "i < length nxt \<Longrightarrow>
     deflate nxt basis ! i = nxt ! i - (\<Sum>j<length nxt. nxt ! j * basis ! j) * basis ! i"
  unfolding deflate_def Let_def
  by (simp add: nth_enumerate_eq foldl_enumerate_sum0[where g = "\<lambda>idx val. val * basis ! idx"])

lemma deflate_orthogonal:
  assumes len: "length basis = length nxt"
    and unit: "normSq basis = 1 \<or> basis = replicate (length basis) 0"
  shows "(\<Sum>i<length nxt. deflate nxt basis ! i * basis ! i) = 0"
proof -
  let ?n = "length nxt"
  let ?d = "\<Sum>j<?n. nxt ! j * basis ! j"
  have "(\<Sum>i<?n. deflate nxt basis ! i * basis ! i)
      = (\<Sum>i<?n. nxt ! i * basis ! i - ?d * (basis ! i * basis ! i))"
    by (intro sum.cong) (simp_all add: deflate_nth algebra_simps)
  also have "\<dots> = ?d - ?d * (\<Sum>i<?n. basis ! i * basis ! i)"
    by (simp add: sum_subtractf sum_distrib_left)
  also have "\<dots> = ?d - ?d * normSq basis"
    by (simp add: normSq_sum len)
  finally have eq: "(\<Sum>i<?n. deflate nxt basis ! i * basis ! i) = ?d - ?d * normSq basis" .
  from unit show ?thesis
  proof
    assume "normSq basis = 1"
    with eq show ?thesis by simp
  next
    assume z: "basis = replicate (length basis) 0"
    have "basis ! i = 0" if "i < ?n" for i
      using that len by (subst z) simp
    then have "?d = 0" by simp
    with eq show ?thesis by simp
  qed
qed

lemma normalize_deflate_orthogonal:
  assumes len: "length basis = length nxt"
    and unit: "normSq basis = 1 \<or> basis = replicate (length basis) 0"
  shows "dotProduct basis (normalize (deflate nxt basis)) = 0"
proof -
  let ?w = "deflate nxt basis"
  let ?c = "if sqrt (normSq ?w) = 0 then 1 else sqrt (normSq ?w)"
  have "dotProduct basis (normalize ?w) = (\<Sum>i<length nxt. basis ! i * normalize ?w ! i)"
    using len by (simp add: dotProduct_sum length_normalize length_deflate)
  also have "\<dots> = (\<Sum>i<length nxt. (?w ! i * basis ! i) / ?c)"
    by (intro sum.cong) (simp_all add: normalize_nth length_deflate)
  also have "\<dots> = (\<Sum>i<length nxt. ?w ! i * basis ! i) / ?c"
    by (simp only: sum_divide_distrib)
  also have "\<dots> = 0"
    by (simp only: deflate_orthogonal[OF len unit] div_0)
  finally show ?thesis .
qed

lemma funpow_last_step: "0 < n \<Longrightarrow> \<exists>z. (f ^^ n) x = f z"
  for f :: "'a \<Rightarrow> 'a"
proof -
  assume "0 < n"
  then obtain m where "n = Suc m" by (cases n) auto
  then have "(f ^^ n) x = f ((f ^^ m) x)" by simp
  then show ?thesis by blast
qed

lemma powerIteration_first:
  "0 < iters \<Longrightarrow> \<exists>z. snd (powerIteration rnd drawn matrix [] iters) = normalize z"
  using funpow_last_step[of iters "powerStep matrix []"]
  by (simp add: powerIteration_def Let_def powerStep_def) metis

lemma powerIteration_second:
  "0 < iters \<Longrightarrow>
     \<exists>z. length z = length matrix \<and>
         snd (powerIteration rnd drawn matrix [basis] iters) = normalize (deflate z basis)"
proof -
  assume "0 < iters"
  then obtain m where m: "iters = Suc m" by (cases iters) auto
  let ?start = "normalize (map (\<lambda>i. rnd (drawn + i)) [0..<length matrix])"
  let ?y = "((powerStep matrix [basis]) ^^ m) ?start"
  have "length ?y = length matrix"
    by (simp add: length_funpow_powerStep length_normalize)
  then have "length (multiply matrix ?y) = length matrix"
    by (simp add: length_multiply)
  moreover have "snd (powerIteration rnd drawn matrix [basis] iters)
      = normalize (deflate (multiply matrix ?y) basis)"
    by (simp add: powerIteration_def Let_def m powerStep_def)
  ultimately show ?thesis by blast
qed

lemma projectRows_basis:
  "\<exists>f s. components (projectRows rnd rows) = [f, s]
      \<and> (normSq f = 1 \<or> f = replicate (length f) 0)
      \<and> (normSq s = 1 \<or> s = replicate (length s) 0)
      \<and> dotProduct f s = 0"
proof -
  let ?d = "length (rows ! 0)"
  let ?cov = "covarianceOf ?d (length rows) (centerRows (meanVector ?d rows) rows)"
  let ?f = "snd (powerIteration rnd 0 ?cov [] 120)"
  let ?s = "snd (powerIteration rnd ?d ?cov [?f] 120)"
  have c: "components (projectRows rnd rows) = [?f, ?s]"
    by (simp add: projectRows_def Let_def)
  obtain z where z: "?f = normalize z"
    using powerIteration_first[of 120 rnd 0 ?cov] by auto
  have f: "normSq ?f = 1 \<or> ?f = replicate (length ?f) 0"
    unfolding z by (rule normalize_unit_or_zero)
  obtain y where y: "length y = length ?cov" "?s = normalize (deflate y ?f)"
    using powerIteration_second[of 120 ?cov rnd ?d ?f] by auto
  have s: "normSq ?s = 1 \<or> ?s = replicate (length ?s) 0"
    unfolding y(2) by (rule normalize_unit_or_zero)
  have len: "length ?f = length y"
    by (simp add: length_powerIteration y(1))
  have "dotProduct ?f ?s = 0"
    unfolding y(2) by (rule normalize_deflate_orthogonal[OF len f])
  with c f s show ?thesis by blast
qed


lemma normalize_known:
  assumes "normSq v = c * c" "0 < c"
  shows "normalize v = map (\<lambda>val. val / c) v"
proof -
  have "sqrt (normSq v) = c"
    using assms by (simp add: real_sqrt_mult_self)
  with assms(2) show ?thesis
    by (simp add: normalize_def normSq_def[symmetric] Let_def)
qed

lemma normalize_zeros: "normalize [0, 0] = [0, 0]"
  by (simp add: normalize_def)

lemma funpow_fixed: "f x = x \<Longrightarrow> (f ^^ n) x = x"
  for f :: "'a \<Rightarrow> 'a"
  by (induction n) simp_all

lemma funpow_reaches_fixed: "f x = y \<Longrightarrow> f y = y \<Longrightarrow> 0 < n \<Longrightarrow> (f ^^ n) x = y"
  for f :: "'a \<Rightarrow> 'a"
proof -
  assume a: "f x = y" "f y = y" "0 < n"
  then obtain m where "n = Suc m" by (cases n) auto
  then have "(f ^^ n) x = (f ^^ m) (f x)"
    by (simp add: funpow_swap1)
  with a show ?thesis by (simp add: funpow_fixed)
qed

lemma upt2: "[0..<2] = [0, 1]" "[0..<Suc (Suc 0)] = [0, Suc 0]"
  by (simp_all add: upt_rec numeral_eq_Suc)

text \<open>A batch that is a matrix: at least one row, every row of finite numbers and of one length.\<close>

definition isFiniteArray :: "jsval \<Rightarrow> bool" where
  "isFiniteArray v =
     (case v of
        JArray xs \<Rightarrow> list_all (\<lambda>x. case x of JNumber (Fin r) \<Rightarrow> True | _ \<Rightarrow> False) xs
      | _ \<Rightarrow> False)"

definition matrixBatch :: "SemanticNode list \<Rightarrow> bool" where
  "matrixBatch data =
     (data \<noteq> [] \<and>
      list_all (\<lambda>n. isFiniteArray (embedding n) \<and>
                     arrayLength (embedding n) = arrayLength (embedding (data ! 0))) data)"

lemma matrixBatch_arrays: "matrixBatch data \<Longrightarrow> list_all (\<lambda>n. isArray (embedding n)) data"
  by (auto simp: matrixBatch_def list_all_iff isFiniteArray_def isArray_def split: jsval.splits)

lemma powerIteration_draws:
  assumes "\<forall>i < length matrix. rnd (drawn + i) = rnd' (drawn + i)"
  shows "powerIteration rnd drawn matrix orthogonalTo iters = powerIteration rnd' drawn matrix orthogonalTo iters"
proof -
  have eq: "map (\<lambda>i. rnd (drawn + i)) [0..<length matrix] = map (\<lambda>i. rnd' (drawn + i)) [0..<length matrix]"
    using assms by simp
  show ?thesis
    unfolding powerIteration_def eq by (rule refl)
qed

lemma projectRows_draws:
  assumes "\<forall>i < 2 * length (rows ! 0). rnd i = rnd' i"
  shows "projectRows rnd rows = projectRows rnd' rows"
proof -
  let ?d = "length (rows ! 0)"
  let ?cov = "covarianceOf ?d (length rows) (centerRows (meanVector ?d rows) rows)"
  have 1: "powerIteration rnd 0 ?cov [] 120 = powerIteration rnd' 0 ?cov [] 120"
    by (rule powerIteration_draws) (use assms in \<open>simp add: length_covarianceOf\<close>)
  have 2: "powerIteration rnd ?d ?cov bs 120 = powerIteration rnd' ?d ?cov bs 120" for bs
    by (rule powerIteration_draws) (use assms in \<open>simp add: length_covarianceOf\<close>)
  show ?thesis
    by (simp add: projectRows_def Let_def 1 2)
qed


lemma start_AB:
  "normalize [3 / 10, 2 / 5] = [3 / 5, 4 / 5]"
  "normalize [2 / 5, 3 / 10] = [4 / 5, 3 / 5]"
  by (simp_all add: normalize_known[where c = "1 / 2"] normSq_def)

section \<open>Arithmetic in IEEE 754 doubles\<close>

text \<open>
  The engine computes in JavaScript numbers, IEEE 754 binary64. \<open>binary64 x\<close> is the double
  nearest to the real \<open>x\<close>, the one with the even significand at a tie: the result of an
  operation whose exact result is \<open>x\<close>. The spacing of the doubles around \<open>x\<close> is
  \<open>2\<^sup>e\<^sup>-\<^sup>5\<^sup>2\<close>, where \<open>2\<^sup>e \<le> |x| < 2\<^sup>e\<^sup>+\<^sup>1\<close> and \<open>e\<close> is at least \<open>-1022\<close> (below, the doubles are
  the subnormal ones). A result of magnitude \<open>2\<^sup>1\<^sup>0\<^sup>2\<^sup>4\<close> or more, which is \<^verbatim>\<open>Infinity\<close> in the
  source, is not modelled: \<open>binary64\<close> rounds it like any other.
\<close>

definition roundEven :: "real \<Rightarrow> int" where
  "roundEven y =
     (let n = \<lfloor>y\<rfloor> in
      if y - of_int n < 1 / 2 then n
      else if 1 / 2 < y - of_int n then n + 1
      else if even n then n else n + 1)"

definition binade :: "real \<Rightarrow> int" where
  "binade x = max (- 1022) \<lfloor>log 2 \<bar>x\<bar>\<rfloor>"

definition binary64 :: "real \<Rightarrow> real" where
  "binary64 x =
     (if x = 0 then 0
      else of_int (roundEven (x / 2 powi (binade x - 52))) * 2 powi (binade x - 52))"

lemma roundEven_of_int: "roundEven (of_int n) = n"
  by (simp add: roundEven_def)

lemma roundEven_upper: "y \<le> of_int n \<Longrightarrow> roundEven y \<le> n"
proof -
  assume y: "y \<le> of_int n"
  show ?thesis
  proof (cases "y = of_int n")
    case True
    then show ?thesis by (simp add: roundEven_of_int)
  next
    case False
    with y have "y < of_int n" by simp
    then have "\<lfloor>y\<rfloor> < n" by (simp add: floor_less_iff)
    then have "\<lfloor>y\<rfloor> + 1 \<le> n" by simp
    then show ?thesis by (auto simp: roundEven_def Let_def)
  qed
qed

lemma roundEven_lower: "of_int n \<le> y \<Longrightarrow> n \<le> roundEven y"
proof -
  assume "of_int n \<le> y"
  then have "n \<le> \<lfloor>y\<rfloor>" by (simp add: le_floor_iff)
  then show ?thesis by (auto simp: roundEven_def Let_def)
qed

lemma roundEven_mono: "x \<le> y \<Longrightarrow> roundEven x \<le> roundEven y"
proof -
  assume xy: "x \<le> y"
  then have fl: "\<lfloor>x\<rfloor> \<le> \<lfloor>y\<rfloor>" by (rule floor_mono)
  show ?thesis
  proof (cases "\<lfloor>x\<rfloor> = \<lfloor>y\<rfloor>")
    case True
    with xy show ?thesis by (auto simp: roundEven_def Let_def)
  next
    case False
    with fl have "\<lfloor>x\<rfloor> + 1 \<le> \<lfloor>y\<rfloor>" by simp
    moreover have "roundEven x \<le> \<lfloor>x\<rfloor> + 1" by (auto simp: roundEven_def Let_def)
    moreover have "\<lfloor>y\<rfloor> \<le> roundEven y" by (auto simp: roundEven_def Let_def)
    ultimately show ?thesis by linarith
  qed
qed

lemma roundEven_minus: "roundEven (- y) = - roundEven y"
proof (cases "y = of_int \<lfloor>y\<rfloor>")
  case True
  then obtain n where "y = of_int n" ..
  then have "- y = of_int (- n)" by simp
  with \<open>y = of_int n\<close> show ?thesis by (simp only: roundEven_of_int)
next
  case False
  then have lt: "of_int \<lfloor>y\<rfloor> < y" using of_int_floor_le[of y] by linarith
  have fm: "\<lfloor>- y\<rfloor> = - \<lfloor>y\<rfloor> - 1"
    using lt by (intro floor_unique) (simp_all, linarith)
  show ?thesis
    unfolding roundEven_def Let_def fm by (auto simp: algebra_simps)
qed


lemma two_powr_int: "(2::real) powr of_int z = 2 powi z"
  by (simp add: powr_real_of_int')

lemma two_powi_pos: "0 < (2::real) powi z"
  by (rule zero_less_power_int) simp

lemma binade_minus: "binade (- x) = binade x"
  by (simp add: binade_def)

lemma binary64_minus: "binary64 (- x) = - binary64 x"
  by (simp add: binary64_def binade_minus roundEven_minus)

lemma binade_above: "x \<noteq> 0 \<Longrightarrow> \<bar>x\<bar> < 2 powi (binade x + 1)"
proof -
  assume "x \<noteq> 0"
  then have pos: "0 < \<bar>x\<bar>" by simp
  have "log 2 \<bar>x\<bar> < of_int (\<lfloor>log 2 \<bar>x\<bar>\<rfloor> + 1)" by linarith
  also have "\<dots> \<le> of_int (binade x + 1)" by (simp add: binade_def)
  finally have "log 2 \<bar>x\<bar> < of_int (binade x + 1)" .
  then have "\<bar>x\<bar> < 2 powr of_int (binade x + 1)"
    using pos by (simp only: log_less_iff[of 2] one_less_numeral_iff semiring_norm)
  then show ?thesis by (simp only: two_powr_int)
qed

lemma binade_below: "x \<noteq> 0 \<Longrightarrow> - 1022 < binade x \<Longrightarrow> 2 powi binade x \<le> \<bar>x\<bar>"
proof -
  assume "x \<noteq> 0" and b: "- 1022 < binade x"
  then have pos: "0 < \<bar>x\<bar>" by simp
  from b have "binade x = \<lfloor>log 2 \<bar>x\<bar>\<rfloor>" by (simp add: binade_def max_def split: if_splits)
  then have "of_int (binade x) \<le> log 2 \<bar>x\<bar>" by simp
  then have "2 powr of_int (binade x) \<le> \<bar>x\<bar>"
    using pos by (simp only: le_log_iff[of 2] one_less_numeral_iff semiring_norm)
  then show ?thesis by (simp only: two_powr_int)
qed

lemma binade_eqI:
  assumes "2 powi e \<le> \<bar>x\<bar>" "\<bar>x\<bar> < 2 powi (e + 1)" "- 1022 \<le> e"
  shows "binade x = e"
proof -
  have pos: "0 < \<bar>x\<bar>" using assms(1) two_powi_pos[of e] by linarith
  have "2 powr of_int e \<le> \<bar>x\<bar>" "\<bar>x\<bar> < 2 powr of_int (e + 1)"
    using assms by (simp_all only: two_powr_int)
  then have "of_int e \<le> log 2 \<bar>x\<bar>" "log 2 \<bar>x\<bar> < of_int (e + 1)"
    using pos by (simp_all only: le_log_iff[of 2] log_less_iff[of 2] one_less_numeral_iff semiring_norm)
  then have "\<lfloor>log 2 \<bar>x\<bar>\<rfloor> = e" by (intro floor_unique) simp_all
  with assms(3) show ?thesis by (simp add: binade_def)
qed

lemma binade_mono: "x \<noteq> 0 \<Longrightarrow> \<bar>x\<bar> \<le> \<bar>y\<bar> \<Longrightarrow> binade x \<le> binade y"
proof -
  assume "x \<noteq> 0" "\<bar>x\<bar> \<le> \<bar>y\<bar>"
  then have "log 2 \<bar>x\<bar> \<le> log 2 \<bar>y\<bar>" by simp
  then have "\<lfloor>log 2 \<bar>x\<bar>\<rfloor> \<le> \<lfloor>log 2 \<bar>y\<bar>\<rfloor>" by (rule floor_mono)
  then show ?thesis by (simp add: binade_def)
qed

lemma binary64_at:
  assumes "2 powi e \<le> \<bar>x\<bar>" "\<bar>x\<bar> < 2 powi (e + 1)" "- 1022 \<le> e"
  shows "binary64 x = of_int (roundEven (x / 2 powi (e - 52))) * 2 powi (e - 52)"
proof -
  have "0 < \<bar>x\<bar>" using assms(1) two_powi_pos[of e] by linarith
  then have "x \<noteq> 0" by simp
  with binade_eqI[OF assms] show ?thesis by (simp add: binary64_def)
qed


lemma binary64_zero: "binary64 0 = 0"
  by (simp add: binary64_def)

lemma ulp_split:
  "(2::real) powi (e + 1) = 9007199254740992 * 2 powi (e - 52)"
  "(2::real) powi e = 4503599627370496 * 2 powi (e - 52)"
proof -
  have a: "(2::real) powi 53 = 9007199254740992" "(2::real) powi 52 = 4503599627370496"
    by simp_all
  have "(2::real) powi (e + 1) = 2 powi (53 + (e - 52))"
    by (rule arg_cong[where f = "\<lambda>z. 2 powi z"]) simp
  also have "\<dots> = 2 powi 53 * 2 powi (e - 52)" by (rule power_int_add) simp
  finally show "(2::real) powi (e + 1) = 9007199254740992 * 2 powi (e - 52)"
    by (simp only: a)
  have "(2::real) powi e = 2 powi (52 + (e - 52))"
    by (rule arg_cong[where f = "\<lambda>z. 2 powi z"]) simp
  also have "\<dots> = 2 powi 52 * 2 powi (e - 52)" by (rule power_int_add) simp
  finally show "(2::real) powi e = 4503599627370496 * 2 powi (e - 52)"
    by (simp only: a)
qed

lemma binary64_nonneg: "0 \<le> x \<Longrightarrow> 0 \<le> binary64 x"
proof -
  assume x: "0 \<le> x"
  have "0 \<le> x / 2 powi (binade x - 52)"
    using x two_powi_pos[of "binade x - 52"] by simp
  then have "of_int 0 \<le> x / 2 powi (binade x - 52)" by simp
  then have "0 \<le> roundEven (x / 2 powi (binade x - 52))" by (rule roundEven_lower)
  then show ?thesis
    using two_powi_pos[of "binade x - 52"] by (simp add: binary64_def)
qed

lemma binary64_upper:
  assumes "0 < x"
  shows "binary64 x \<le> 2 powi (binade x + 1)"
proof -
  define u :: real where "u = 2 powi (binade x - 52)"
  have u: "0 < u" unfolding u_def by (rule two_powi_pos)
  from binade_above[of x] assms have "x < 9007199254740992 * u"
    by (simp add: ulp_split(1) u_def)
  then have "x / u \<le> of_int 9007199254740992" using u by (simp add: pos_divide_le_eq)
  then have "roundEven (x / u) \<le> 9007199254740992" by (rule roundEven_upper)
  then have "real_of_int (roundEven (x / u)) \<le> 9007199254740992" by linarith
  then have "real_of_int (roundEven (x / u)) * u \<le> 9007199254740992 * u"
    using u by simp
  then show ?thesis
    using assms by (simp add: binary64_def ulp_split(1) u_def)
qed

lemma binary64_lower:
  assumes "0 < x" "- 1022 < binade x"
  shows "2 powi binade x \<le> binary64 x"
proof -
  define u :: real where "u = 2 powi (binade x - 52)"
  have u: "0 < u" unfolding u_def by (rule two_powi_pos)
  from binade_below[of x] assms have "4503599627370496 * u \<le> x"
    by (simp add: ulp_split(2)[of "binade x"] u_def)
  then have "of_int 4503599627370496 \<le> x / u" using u by (simp add: pos_le_divide_eq)
  then have "4503599627370496 \<le> roundEven (x / u)" by (rule roundEven_lower)
  then have "4503599627370496 \<le> real_of_int (roundEven (x / u))" by linarith
  then have "4503599627370496 * u \<le> real_of_int (roundEven (x / u)) * u"
    using u by simp
  then show ?thesis
    using assms by (simp add: binary64_def ulp_split(2)[of "binade x"] u_def)
qed

lemma binary64_mono_pos:
  assumes "0 < x" "x \<le> y"
  shows "binary64 x \<le> binary64 y"
proof (cases "binade x = binade y")
  case True
  define u :: real where "u = 2 powi (binade y - 52)"
  have u: "0 < u" unfolding u_def by (rule two_powi_pos)
  from assms(2) u have "x / u \<le> y / u" by (simp add: divide_right_mono)
  then have "roundEven (x / u) \<le> roundEven (y / u)" by (rule roundEven_mono)
  then have "real_of_int (roundEven (x / u)) * u \<le> real_of_int (roundEven (y / u)) * u"
    using u by simp
  then show ?thesis
    using assms True by (simp add: binary64_def u_def)
next
  case False
  from assms have y: "0 < y" by simp
  from assms have "binade x \<le> binade y" by (intro binade_mono) simp_all
  with False have lt: "binade x + 1 \<le> binade y" by simp
  have "- 1022 \<le> binade x" by (simp add: binade_def)
  with lt have "- 1022 < binade y" by simp
  from binary64_lower[OF y this] have "2 powi binade y \<le> binary64 y" .
  moreover have "(2::real) powi (binade x + 1) \<le> 2 powi binade y"
    using lt by (intro power_int_increasing) simp_all
  moreover have "binary64 x \<le> 2 powi (binade x + 1)" by (rule binary64_upper[OF assms(1)])
  ultimately show ?thesis by linarith
qed

lemma binary64_mono: "x \<le> y \<Longrightarrow> binary64 x \<le> binary64 y"
proof -
  assume xy: "x \<le> y"
  consider "0 < x" | "x \<le> 0" "0 \<le> y" | "y < 0" by linarith
  then show ?thesis
  proof cases
    case 1
    then show ?thesis using xy by (rule binary64_mono_pos)
  next
    case 2
    then have "0 \<le> binary64 (- x)" "0 \<le> binary64 y" by (simp_all add: binary64_nonneg)
    then show ?thesis by (simp add: binary64_minus)
  next
    case 3
    with xy have "0 < - y" "- y \<le> - x" by simp_all
    then have "binary64 (- y) \<le> binary64 (- x)" by (rule binary64_mono_pos)
    then show ?thesis by (simp add: binary64_minus)
  qed
qed

text \<open>A multiple of a power of two with a numerator below \<open>2\<^sup>5\<^sup>3\<close> is a double.\<close>

lemma binary64_exact:
  assumes "\<bar>m\<bar> < 9007199254740992" "- 1074 \<le> k"
  shows "binary64 (of_int m * 2 powi k) = of_int m * 2 powi k"
proof (cases "m = 0")
  case True
  then show ?thesis by (simp add: binary64_zero)
next
  case False
  define x :: real where "x = of_int m * 2 powi k"
  have x0: "x \<noteq> 0" using False two_powi_pos[of k] by (simp add: x_def)
  have ax: "\<bar>x\<bar> = of_int \<bar>m\<bar> * 2 powi k"
    using two_powi_pos[of k] by (simp add: x_def abs_mult)
  have "binade x - 52 \<le> k"
  proof (cases "- 1022 < binade x")
    case False
    moreover have "- 1022 \<le> binade x" by (simp add: binade_def)
    ultimately have "binade x = - 1022" by linarith
    with assms(2) show ?thesis by simp
  next
    case True
    from binade_below[OF x0 True] have "(2::real) powi binade x \<le> of_int \<bar>m\<bar> * 2 powi k"
      by (simp only: ax)
    also have "\<dots> < 9007199254740992 * 2 powi k"
      using assms(1) two_powi_pos[of k] by simp
    also have "\<dots> = 2 powi (k + 53)"
      by (simp add: power_int_add)
    finally have "(2::real) powi binade x < 2 powi (k + 53)" .
    then have "binade x < k + 53"
      using power_int_increasing[of "k + 53" "binade x" "2::real"] by (cases "binade x < k + 53") simp_all
    then show ?thesis by simp
  qed
  then have le: "binade x - 52 \<le> k" .
  define b where "b = binade x - 52"
  define j where "j = nat (k - b)"
  have j: "k = b + int j" using le by (simp add: j_def b_def)
  have "(2::real) powi (b + int j) = 2 powi b * 2 powi int j"
    by (rule power_int_add) simp
  then have pk: "(2::real) powi k = 2 powi b * 2 ^ j"
    by (simp only: j power_int_of_nat)
  have bpos: "0 < (2::real) powi b" by (rule two_powi_pos)
  have "x / 2 powi b = of_int m * 2 ^ j"
    unfolding x_def pk using bpos by simp
  then have "x / 2 powi b = of_int (m * 2 ^ j)" by simp
  then have "roundEven (x / 2 powi b) = m * 2 ^ j"
    by (simp only: roundEven_of_int)
  then have "binary64 x = of_int (m * 2 ^ j) * 2 powi b"
    using x0 by (simp add: binary64_def b_def)
  also have "\<dots> = x"
    unfolding x_def pk by simp
  finally show ?thesis by (simp add: x_def)
qed


text \<open>Integers, halves and quarters with a numerator below \<open>2\<^sup>5\<^sup>3\<close> are doubles.\<close>

lemma binary64_int: "\<bar>m\<bar> < 9007199254740992 \<Longrightarrow> binary64 (of_int m) = of_int m"
  using binary64_exact[of m 0] by simp

lemma binary64_half: "\<bar>m\<bar> < 9007199254740992 \<Longrightarrow> binary64 (of_int m / 2) = of_int m / 2"
proof -
  assume "\<bar>m\<bar> < 9007199254740992"
  from binary64_exact[OF this, of "- 1"] show ?thesis
    by (simp add: power_int_minus field_simps)
qed

lemma binary64_quarter: "\<bar>m\<bar> < 9007199254740992 \<Longrightarrow> binary64 (of_int m / 4) = of_int m / 4"
proof -
  assume "\<bar>m\<bar> < 9007199254740992"
  from binary64_exact[OF this, of "- 2"] show ?thesis
    by (simp add: power_int_minus field_simps)
qed

lemma binary64_numeral:
  "numeral n < (9007199254740992::int) \<Longrightarrow> binary64 (numeral n) = numeral n"
  "numeral n < (9007199254740992::int) \<Longrightarrow> binary64 (numeral n / 2) = numeral n / 2"
  "numeral n < (9007199254740992::int) \<Longrightarrow> binary64 (numeral n / 4) = numeral n / 4"
  "binary64 1 = 1" "binary64 (1 / 2) = 1 / 2" "binary64 (1 / 4) = 1 / 4"
  using binary64_int[of "numeral n"] binary64_half[of "numeral n"] binary64_quarter[of "numeral n"]
    binary64_int[of 1] binary64_half[of 1] binary64_quarter[of 1]
  by simp_all

subsection \<open>runKMeans in rounded arithmetic\<close>

text \<open>
  The arithmetic of \<^verbatim>\<open>euclideanDistance\<close> and \<^verbatim>\<open>runKMeans\<close> with the rounding of every
  operation made explicit: \<open>fl\<close> is applied to the exact result of each subtraction,
  product, sum, quotient and square root, in the order of the source. With \<open>binary64\<close> for
  \<open>fl\<close> the functions compute what the source computes; with the identity they are the
  functions of exact arithmetic above. \<^verbatim>\<open>x ** 2\<close> is the rounded product of \<open>x\<close> with itself. The
  initial centroids involve one product, \<^verbatim>\<open>rand() * vectors.length\<close>, of a multiple of
  \<open>2\<^sup>-\<^sup>3\<^sup>2\<close> with an integer; it is exact up to \<open>2\<^sup>2\<^sup>1\<close> rows, and \<open>chooseCentroids\<close> stays as
  it is.
\<close>

definition euclideanDistanceR :: "(real \<Rightarrow> real) \<Rightarrow> real list \<Rightarrow> real list \<Rightarrow> real" where
  "euclideanDistanceR fl a b =
     fl (sqrt (foldl (\<lambda>total i. let diff = fl (a ! i - b ! i) in fl (total + fl (diff * diff)))
                 0 [0..<length a]))"

fun nearestFromR ::
  "(real \<Rightarrow> real) \<Rightarrow> real list \<Rightarrow> real list list \<Rightarrow> nat \<Rightarrow> nat \<times> real option \<Rightarrow> nat \<times> real option" where
  "nearestFromR fl v [] cluster best = best"
| "nearestFromR fl v (c # cs) cluster best =
     (let distance = euclideanDistanceR fl v c in
      nearestFromR fl v cs (cluster + 1)
        (if (case snd best of None \<Rightarrow> True | Some bestDistance \<Rightarrow> distance < bestDistance)
         then (cluster, Some distance) else best))"

definition bestClusterR :: "(real \<Rightarrow> real) \<Rightarrow> real list list \<Rightarrow> real list \<Rightarrow> nat" where
  "bestClusterR fl cs v = fst (nearestFromR fl v cs 0 (0, None))"

definition clusterSumsR :: "(real \<Rightarrow> real) \<Rightarrow> nat \<Rightarrow> nat \<Rightarrow> real list list \<Rightarrow> nat list \<Rightarrow> real list list" where
  "clusterSumsR fl k dimn vs ls =
     foldl (\<lambda>totals i.
              totals[ls ! i := foldl (\<lambda>row d. row[d := fl (row ! d + vs ! i ! d)]) (totals ! (ls ! i)) [0..<dimn]])
       (replicate k (replicate dimn 0)) [0..<length vs]"

definition updateCentroidsR ::
  "(real \<Rightarrow> real) \<Rightarrow> nat \<Rightarrow> real list list \<Rightarrow> nat list \<Rightarrow> real list list \<Rightarrow> real list list" where
  "updateCentroidsR fl dimn vs ls cs =
     (let totals = clusterSumsR fl (length cs) dimn vs ls;
          counts = clusterCounts (length cs) ls
      in map (\<lambda>cluster.
                if counts ! cluster = 0 then cs ! cluster
                else foldl (\<lambda>c d. c[d := fl (totals ! cluster ! d / real (counts ! cluster))])
                       (cs ! cluster) [0..<dimn])
             [0..<length cs])"

function kmeansLoopR ::
  "(real \<Rightarrow> real) \<Rightarrow> real list list \<Rightarrow> nat \<Rightarrow> nat \<Rightarrow> nat \<Rightarrow> nat list \<Rightarrow> real list list
     \<Rightarrow> nat list \<times> real list list \<times> nat" where
  "kmeansLoopR fl vs dimn maxIterations its ls cs =
     (if its < maxIterations then
        (let ls' = map (bestClusterR fl cs) vs in
         if ls' = ls then (ls', cs, its)
         else kmeansLoopR fl vs dimn maxIterations (its + 1) ls' (updateCentroidsR fl dimn vs ls' cs))
      else (ls, cs, its))"
  by pat_completeness auto
termination
  by (relation "measure (\<lambda>(fl, vs, dimn, maxIterations, its, ls, cs). maxIterations - its)") auto

declare kmeansLoopR.simps [simp del]

definition inertiaOfR :: "(real \<Rightarrow> real) \<Rightarrow> real list list \<Rightarrow> nat list \<Rightarrow> real list list \<Rightarrow> real" where
  "inertiaOfR fl vs ls cs =
     foldl (\<lambda>inertia i. fl (inertia + fl ((euclideanDistanceR fl (vs ! i) (cs ! (ls ! i)))\<^sup>2)))
       0 [0..<length vs]"

definition runKMeansR ::
  "(real \<Rightarrow> real) \<Rightarrow> (jsval \<Rightarrow> jsnum) \<Rightarrow> SemanticNode list \<Rightarrow> real \<Rightarrow> nat \<Rightarrow> ClusteringResult" where
  "runKMeansR fl conv data k maxIterations =
     (if data = [] then
        \<lparr>labels = [], centroids = [], iterations = Some 0, inertia = Some 0, noiseCount = None\<rparr>
      else
        let ex = extractValidEmbeddings conv data;
            vs = vectors ex
        in
        if vs = [] \<or> dimension ex = 0 then allNoise (length data)
        else
          let cs0 = initialCentroids conv data k in
          if cs0 = [] then allNoise (length data)
          else
            (case kmeansLoopR fl vs (dimension ex) maxIterations 0 (replicate (length vs) 0) cs0 of
               (ls, cs, its) \<Rightarrow>
                 \<lparr>labels = fullLabels (length data) (indices ex) (map int ls),
                  centroids = cs,
                  iterations = Some its,
                  inertia = Some (fl (toFixed (inertiaOfR fl vs ls cs) 3)),
                  noiseCount = None\<rparr>))"

text \<open>The inertia of the first assignment against the initial centroids.\<close>

definition initialInertiaR :: "(real \<Rightarrow> real) \<Rightarrow> (jsval \<Rightarrow> jsnum) \<Rightarrow> SemanticNode list \<Rightarrow> real \<Rightarrow> real" where
  "initialInertiaR fl conv data k =
     (let vs = vectors (extractValidEmbeddings conv data);
          cs = initialCentroids conv data k
      in inertiaOfR fl vs (map (bestClusterR fl cs) vs) cs)"

text \<open>With exact arithmetic these are the functions above.\<close>

lemma foldl_add_upt: "foldl (\<lambda>total i. total + f i) a [0..<n] = a + (\<Sum>i\<leftarrow>[0..<n]. f i)"
  by (induction n arbitrary: a) (simp_all add: add.assoc)

lemma euclideanDistanceR_id: "euclideanDistanceR (\<lambda>x. x) a b = euclideanDistance a b"
  using foldl_add_upt[of "\<lambda>i. (a ! i - b ! i) * (a ! i - b ! i)" 0 "length a"]
  by (simp add: euclideanDistanceR_def euclideanDistance_def Let_def)

lemma nearestFromR_id: "nearestFromR (\<lambda>x. x) v cs cluster best = nearestFrom v cs cluster best"
  by (induction cs arbitrary: cluster best) (simp_all add: euclideanDistanceR_id Let_def)

lemma bestClusterR_id: "bestClusterR (\<lambda>x. x) cs v = bestCluster cs v"
  by (simp add: bestClusterR_def bestCluster_def nearestFromR_id)

lemma updateCentroidsR_id: "updateCentroidsR (\<lambda>x. x) dimn vs ls cs = updateCentroids dimn vs ls cs"
  by (simp add: updateCentroidsR_def updateCentroids_def clusterSumsR_def clusterSums_def)

lemma kmeansLoopR_id:
  "kmeansLoopR (\<lambda>x. x) vs dimn maxIterations its ls cs = kmeansLoop vs dimn maxIterations its ls cs"
proof (induction vs dimn maxIterations its ls cs rule: kmeansLoop.induct)
  case (1 vs dimn maxIterations its ls cs)
  have b: "map (bestClusterR (\<lambda>x. x) cs) vs = map (bestCluster cs) vs"
    by (simp add: bestClusterR_id)
  show ?case
  proof (cases "its < maxIterations \<and> map (bestCluster cs) vs \<noteq> ls")
    case True
    from "1.IH"[OF _ refl] True show ?thesis
      by (subst kmeansLoopR.simps, subst kmeansLoop.simps)
         (simp add: b updateCentroidsR_id Let_def)
  next
    case False
    then show ?thesis
      by (subst kmeansLoopR.simps, subst kmeansLoop.simps) (auto simp: b Let_def)
  qed
qed

lemma inertiaOfR_id: "inertiaOfR (\<lambda>x. x) vs ls cs = inertiaOf vs ls cs"
  using foldl_add_upt[of "\<lambda>i. (euclideanDistance (vs ! i) (cs ! (ls ! i)))\<^sup>2" 0 "length vs"]
  by (simp add: inertiaOfR_def inertiaOf_def euclideanDistanceR_id)

lemma runKMeansR_id: "runKMeansR (\<lambda>x. x) conv data k maxIterations = runKMeans conv data k maxIterations"
  by (simp add: runKMeansR_def runKMeans_def kmeansLoopR_id inertiaOfR_id initialCentroids_def Let_def)

lemma nearestFromR_minimal:
  assumes "k \<le> length cs"
    and "case snd best of
           None \<Rightarrow> k = 0
         | Some d \<Rightarrow> fst best < k \<and> d = euclideanDistanceR fl v (cs ! fst best)
             \<and> (\<forall>j < k. d \<le> euclideanDistanceR fl v (cs ! j))"
    and "cs \<noteq> []"
  shows "\<exists>b d. nearestFromR fl v (drop k cs) k best = (b, Some d) \<and> b < length cs
           \<and> d = euclideanDistanceR fl v (cs ! b) \<and> (\<forall>j < length cs. d \<le> euclideanDistanceR fl v (cs ! j))"
  using assms
proof (induction "length cs - k" arbitrary: k best)
  case 0
  then have k: "k = length cs" by simp
  with "0.prems" obtain d where "snd best = Some d"
    by (cases "snd best") auto
  with "0.prems" k show ?case
    by (cases best) auto
next
  case (Suc m)
  then have lt: "k < length cs" by simp
  let ?distance = "euclideanDistanceR fl v (cs ! k)"
  let ?b = "if (case snd best of None \<Rightarrow> True | Some bestDistance \<Rightarrow> ?distance < bestDistance)
      then (k, Some ?distance) else best"
  have unfold: "nearestFromR fl v (drop k cs) k best = nearestFromR fl v (drop (Suc k) cs) (Suc k) ?b"
    using lt by (simp add: Cons_nth_drop_Suc[symmetric] Let_def)
  have inv: "case snd ?b of
           None \<Rightarrow> Suc k = 0
         | Some d \<Rightarrow> fst ?b < Suc k \<and> d = euclideanDistanceR fl v (cs ! fst ?b)
             \<and> (\<forall>j < Suc k. d \<le> euclideanDistanceR fl v (cs ! j))"
  proof (cases "snd best")
    case None
    with Suc.prems(2) show ?thesis by simp
  next
    case (Some bd)
    with Suc.prems(2) have old: "fst best < k" "bd = euclideanDistanceR fl v (cs ! fst best)"
      "\<forall>j < k. bd \<le> euclideanDistanceR fl v (cs ! j)" by auto
    show ?thesis
    proof (cases "?distance < bd")
      case True
      with Some old(3) show ?thesis
        by (auto simp: less_Suc_eq)
    next
      case False
      with Some old show ?thesis
        by (auto simp: less_Suc_eq)
    qed
  qed
  from Suc.hyps(2) have m: "m = length cs - Suc k" by simp
  from Suc.hyps(1)[OF m _ inv Suc.prems(3)] lt show ?case
    unfolding unfold by simp
qed

lemma bestClusterR_nearest:
  assumes "cs \<noteq> []" "l < length cs"
  shows "bestClusterR fl cs v < length cs"
    and "euclideanDistanceR fl v (cs ! bestClusterR fl cs v) \<le> euclideanDistanceR fl v (cs ! l)"
proof -
  from nearestFromR_minimal[of 0 cs "(0, None)" fl v] assms(1)
  obtain b d where "nearestFromR fl v cs 0 (0, None) = (b, Some d)" "b < length cs"
    "d = euclideanDistanceR fl v (cs ! b)" "\<forall>j < length cs. d \<le> euclideanDistanceR fl v (cs ! j)"
    by auto
  with assms(2) show "bestClusterR fl cs v < length cs"
    and "euclideanDistanceR fl v (cs ! bestClusterR fl cs v) \<le> euclideanDistanceR fl v (cs ! l)"
    by (simp_all add: bestClusterR_def)
qed


text \<open>
  What the statements below use of the rounding: it is monotone and leaves \<open>0\<close> as it is.
\<close>

definition monotoneRounding :: "(real \<Rightarrow> real) \<Rightarrow> bool" where
  "monotoneRounding fl = (fl 0 = 0 \<and> mono fl)"

lemma monotoneRounding_binary64: "monotoneRounding binary64"
  by (simp add: monotoneRounding_def binary64_zero mono_def binary64_mono)

lemma monotoneRounding_nonneg: "monotoneRounding fl \<Longrightarrow> 0 \<le> x \<Longrightarrow> 0 \<le> fl x"
  unfolding monotoneRounding_def by (metis monoD)

lemma monotoneRounding_le: "monotoneRounding fl \<Longrightarrow> x \<le> y \<Longrightarrow> fl x \<le> fl y"
  unfolding monotoneRounding_def by (metis monoD)

lemma foldl_rounded_nonneg:
  assumes "monotoneRounding fl" "0 \<le> a" "\<And>i. i \<in> set xs \<Longrightarrow> 0 \<le> f i"
  shows "0 \<le> foldl (\<lambda>total i. fl (total + f i)) a xs"
  using assms(2,3)
proof (induction xs arbitrary: a)
  case Nil
  then show ?case by simp
next
  case (Cons x xs)
  have "0 \<le> fl (a + f x)"
    using Cons.prems by (intro monotoneRounding_nonneg[OF assms(1)]) simp
  then show ?case using Cons by simp
qed

lemma foldl_rounded_mono:
  assumes "monotoneRounding fl" "a \<le> b" "\<And>i. i \<in> set xs \<Longrightarrow> f i \<le> g i"
  shows "foldl (\<lambda>total i. fl (total + f i)) a xs \<le> foldl (\<lambda>total i. fl (total + g i)) b xs"
  using assms(2,3)
proof (induction xs arbitrary: a b)
  case Nil
  then show ?case by simp
next
  case (Cons x xs)
  have "fl (a + f x) \<le> fl (b + g x)"
    using Cons.prems by (intro monotoneRounding_le[OF assms(1)] add_mono) simp_all
  then show ?case using Cons by simp
qed

lemma euclideanDistanceR_nonneg: "monotoneRounding fl \<Longrightarrow> 0 \<le> euclideanDistanceR fl a b"
proof -
  assume m: "monotoneRounding fl"
  have "0 \<le> foldl (\<lambda>total i. fl (total + fl (fl (a ! i - b ! i) * fl (a ! i - b ! i)))) 0 [0..<length a]"
    by (rule foldl_rounded_nonneg[OF m]) (simp_all add: monotoneRounding_nonneg[OF m])
  then show ?thesis
    by (simp add: euclideanDistanceR_def Let_def monotoneRounding_nonneg[OF m])
qed

lemma assign_decreasesR:
  assumes "monotoneRounding fl" "cs \<noteq> []" "length ls = length vs" "\<forall>l \<in> set ls. l < length cs"
  shows "inertiaOfR fl vs (map (bestClusterR fl cs) vs) cs \<le> inertiaOfR fl vs ls cs"
proof -
  have "fl ((euclideanDistanceR fl (vs ! i) (cs ! (map (bestClusterR fl cs) vs ! i)))\<^sup>2)
      \<le> fl ((euclideanDistanceR fl (vs ! i) (cs ! (ls ! i)))\<^sup>2)" if "i \<in> set [0..<length vs]" for i
  proof -
    from that have i: "i < length vs" by simp
    with assms have "ls ! i < length cs" by simp
    from bestClusterR_nearest(2)[OF assms(2) this, of fl "vs ! i"] i show ?thesis
      by (intro monotoneRounding_le[OF assms(1)] power_mono)
         (simp_all add: euclideanDistanceR_nonneg[OF assms(1)])
  qed
  then show ?thesis
    unfolding inertiaOfR_def by (intro foldl_rounded_mono[OF assms(1)]) simp_all
qed

subsection \<open>The rounds of K-Means in exact arithmetic\<close>

text \<open>
  The labels and the centroids at the end of each round of the main loop, in exact
  arithmetic: the round that changes no label ends with the centroids it started from.
\<close>

function kmeansRounds ::
  "real list list \<Rightarrow> nat \<Rightarrow> nat \<Rightarrow> nat \<Rightarrow> nat list \<Rightarrow> real list list \<Rightarrow> (nat list \<times> real list list) list" where
  "kmeansRounds vs dimn maxIterations its ls cs =
     (if its < maxIterations then
        (let ls' = map (bestCluster cs) vs in
         if ls' = ls then [(ls', cs)]
         else (ls', updateCentroids dimn vs ls' cs)
                # kmeansRounds vs dimn maxIterations (its + 1) ls' (updateCentroids dimn vs ls' cs))
      else [])"
  by pat_completeness auto
termination
  by (relation "measure (\<lambda>(vs, dimn, maxIterations, its, ls, cs). maxIterations - its)") auto

declare kmeansRounds.simps [simp del]

lemma kmeansRounds_nonempty: "its < maxIterations \<Longrightarrow> kmeansRounds vs dimn maxIterations its ls cs \<noteq> []"
  by (subst kmeansRounds.simps) (simp add: Let_def)

lemma kmeansLoop_last:
  "kmeansLoop vs dimn maxIterations its ls cs = (ls', cs', its') \<Longrightarrow>
     (ls', cs') = last ((ls, cs) # kmeansRounds vs dimn maxIterations its ls cs)"
proof (induction vs dimn maxIterations its ls cs rule: kmeansLoop.induct)
  case (1 vs dimn maxIterations its ls cs)
  let ?ls = "map (bestCluster cs) vs"
  let ?cs = "updateCentroids dimn vs ?ls cs"
  show ?case
  proof (cases "its < maxIterations")
    case False
    then have "kmeansRounds vs dimn maxIterations its ls cs = []"
      by (simp add: kmeansRounds.simps[of vs dimn maxIterations its])
    moreover from False "1.prems" have "ls' = ls" "cs' = cs"
      by (simp_all add: kmeansLoop.simps[of vs dimn maxIterations its])
    ultimately show ?thesis by simp
  next
    case True
    show ?thesis
    proof (cases "?ls = ls")
      case same: True
      with True have "kmeansRounds vs dimn maxIterations its ls cs = [(?ls, cs)]"
        by (simp add: kmeansRounds.simps[of vs dimn maxIterations its] Let_def)
      moreover from True same "1.prems" have "ls' = ?ls" "cs' = cs"
        by (simp_all add: kmeansLoop.simps[of vs dimn maxIterations its] Let_def)
      ultimately show ?thesis by simp
    next
      case changed: False
      have step: "kmeansLoop vs dimn maxIterations (its + 1) ?ls ?cs = (ls', cs', its')"
        using True changed "1.prems"
        by (simp add: kmeansLoop.simps[of vs dimn maxIterations its] Let_def)
      have r: "kmeansRounds vs dimn maxIterations its ls cs
          = (?ls, ?cs) # kmeansRounds vs dimn maxIterations (its + 1) ?ls ?cs"
        using True changed by (simp add: kmeansRounds.simps[of vs dimn maxIterations its] Let_def)
      from "1.IH"[OF True refl changed step] show ?thesis
        unfolding r by simp
    qed
  qed
qed

lemma kmeansRounds_chain:
  assumes "kmeansState dimn vs ls cs"
  shows "sorted_wrt (\<lambda>a b. b \<le> a)
           (inertiaOf vs (map (bestCluster cs) vs) cs
              # map (\<lambda>(ls, cs). inertiaOf vs ls cs) (kmeansRounds vs dimn maxIterations its ls cs))"
  using assms
proof (induction vs dimn maxIterations its ls cs rule: kmeansRounds.induct)
  case (1 vs dimn maxIterations its ls cs)
  let ?ls = "map (bestCluster cs) vs"
  let ?cs = "updateCentroids dimn vs ?ls cs"
  let ?J = "\<lambda>(ls, cs). inertiaOf vs ls cs"
  show ?case
  proof (cases "its < maxIterations")
    case False
    then show ?thesis by (simp add: kmeansRounds.simps[of vs dimn maxIterations its])
  next
    case True
    show ?thesis
    proof (cases "?ls = ls")
      case same: True
      with True show ?thesis
        by (simp add: kmeansRounds.simps[of vs dimn maxIterations its] Let_def)
    next
      case changed: False
      let ?rest = "kmeansRounds vs dimn maxIterations (its + 1) ?ls ?cs"
      have r: "kmeansRounds vs dimn maxIterations its ls cs = (?ls, ?cs) # ?rest"
        using True changed by (simp add: kmeansRounds.simps[of vs dimn maxIterations its] Let_def)
      have st1: "kmeansState dimn vs ?ls cs" by (rule assign_state[OF "1.prems"])
      have st: "kmeansState dimn vs ?ls ?cs" by (rule updateCentroids_state[OF st1])
      have u: "inertiaOf vs ?ls ?cs \<le> inertiaOf vs ?ls cs" by (rule update_decreases[OF st1])
      have a: "inertiaOf vs (map (bestCluster ?cs) vs) ?cs \<le> inertiaOf vs ?ls ?cs"
        using st by (intro assign_decreases) (simp_all add: kmeansState_def list_all_iff)
      from "1.IH"[OF True refl changed st]
      have IH: "sorted_wrt (\<lambda>a b. b \<le> a) (inertiaOf vs (map (bestCluster ?cs) vs) ?cs # map ?J ?rest)" .
      then have below: "\<forall>y \<in> set (map ?J ?rest). y \<le> inertiaOf vs (map (bestCluster ?cs) vs) ?cs"
        and sorted: "sorted_wrt (\<lambda>a b. b \<le> a) (map ?J ?rest)"
        by simp_all
      from below a have b1: "\<forall>y \<in> set (map ?J ?rest). y \<le> inertiaOf vs ?ls ?cs" by fastforce
      with u have b2: "\<forall>y \<in> set (map ?J ?rest). y \<le> inertiaOf vs ?ls cs" by fastforce
      show ?thesis
        unfolding r using u b1 b2 sorted by simp
    qed
  qed
qed

lemma toFixed_mono:
  assumes "0 \<le> x" "x \<le> y"
  shows "toFixed x 3 \<le> toFixed y 3"
proof -
  have fl: "\<lfloor>x * 1000 + 1 / 2\<rfloor> \<le> \<lfloor>y * 1000 + 1 / 2\<rfloor>"
    using assms by (intro floor_mono) simp
  consider "y < 10 ^ 21" | "x < 10 ^ 21" "10 ^ 21 \<le> y" | "10 ^ 21 \<le> x" by linarith
  then show ?thesis
  proof cases
    case 1
    with assms fl show ?thesis
      by (simp add: toFixed_def divide_right_mono)
  next
    case 2
    then have "x * 1000 + 1 / 2 < 1000000000000000000000001" by simp
    then have "\<lfloor>x * 1000 + 1 / 2\<rfloor> < 1000000000000000000000001"
      by (simp add: floor_less_iff)
    then have "real_of_int \<lfloor>x * 1000 + 1 / 2\<rfloor> \<le> 1000000000000000000000000" by linarith
    then have "real_of_int \<lfloor>x * 1000 + 1 / 2\<rfloor> / 1000 \<le> 10 ^ 21" by simp
    moreover have "toFixed x 3 = real_of_int \<lfloor>x * 1000 + 1 / 2\<rfloor> / 1000"
      using 2 assms by (simp add: toFixed_def)
    moreover have "toFixed y 3 = y"
      using 2 by (simp add: toFixed_def)
    ultimately show ?thesis using 2 by linarith
  next
    case 3
    with assms show ?thesis by (simp add: toFixed_def)
  qed
qed

text \<open>
  The rounds of \<^verbatim>\<open>runKMeans\<close> in exact arithmetic, from the initial labels and centroids,
  and the inertia of the state a round ends with.
\<close>

definition exactRounds ::
  "(jsval \<Rightarrow> jsnum) \<Rightarrow> SemanticNode list \<Rightarrow> real \<Rightarrow> nat \<Rightarrow> (nat list \<times> real list list) list" where
  "exactRounds conv data k maxIterations =
     (let ex = extractValidEmbeddings conv data;
          vs = vectors ex
      in kmeansRounds vs (dimension ex) maxIterations 0 (replicate (length vs) 0)
           (initialCentroids conv data k))"

definition roundInertia :: "(jsval \<Rightarrow> jsnum) \<Rightarrow> SemanticNode list \<Rightarrow> nat list \<times> real list list \<Rightarrow> real" where
  "roundInertia conv data st = inertiaOf (vectors (extractValidEmbeddings conv data)) (fst st) (snd st)"

lemma initial_state:
  assumes "initialCentroids conv data k \<noteq> []"
  shows "kmeansState (dimension (extractValidEmbeddings conv data))
           (vectors (extractValidEmbeddings conv data))
           (replicate (length (vectors (extractValidEmbeddings conv data))) 0)
           (initialCentroids conv data k)"
proof -
  let ?ex = "extractValidEmbeddings conv data"
  let ?vs = "vectors ?ex"
  let ?cs0 = "initialCentroids conv data k"
  have rows: "list_all (\<lambda>v. length v = dimension ?ex) ?vs"
    using extract_rowsOk[of conv data] by (simp add: rowsOk_def list_all_iff)
  have "\<forall>c \<in> set ?cs0. c \<in> set ?vs"
    unfolding initialCentroids_def Let_def by (rule chooseCentroids_rows) simp
  with rows have cents: "list_all (\<lambda>c. length c = dimension ?ex) ?cs0"
    by (simp add: list_all_iff)
  show ?thesis
    using assms rows cents by (simp add: kmeansState_def list_all_iff)
qed

lemma initial_nondegenerate:
  assumes "initialCentroids conv data k \<noteq> []"
  shows "data \<noteq> []" "vectors (extractValidEmbeddings conv data) \<noteq> []"
    "dimension (extractValidEmbeddings conv data) \<noteq> 0"
proof -
  let ?ex = "extractValidEmbeddings conv data"
  have "\<forall>c \<in> set (initialCentroids conv data k). c \<in> set (vectors ?ex)"
    unfolding initialCentroids_def Let_def by (rule chooseCentroids_rows) simp
  with assms show v: "vectors ?ex \<noteq> []" by (cases "initialCentroids conv data k") auto
  with extract_rowsOk[of conv data] show "dimension ?ex \<noteq> 0" by (simp add: rowsOk_def)
  from v show "data \<noteq> []" by (auto simp: extractValidEmbeddings_def)
qed

lemma exact_rounds:
  assumes "0 < maxIterations" "initialCentroids conv data k \<noteq> []"
  shows "exactRounds conv data k maxIterations \<noteq> []"
    and "sorted_wrt (\<lambda>a b. b \<le> a)
           (initialInertia conv data k # map (roundInertia conv data) (exactRounds conv data k maxIterations))"
    and "labels (runKMeans conv data k maxIterations) =
           fullLabels (length data) (indices (extractValidEmbeddings conv data))
             (map int (fst (last (exactRounds conv data k maxIterations))))"
    and "centroids (runKMeans conv data k maxIterations) = snd (last (exactRounds conv data k maxIterations))"
    and "inertia (runKMeans conv data k maxIterations) =
           Some (toFixed (roundInertia conv data (last (exactRounds conv data k maxIterations))) 3)"
    and "toFixed (roundInertia conv data (last (exactRounds conv data k maxIterations))) 3
           \<le> toFixed (initialInertia conv data k) 3"
proof -
  let ?ex = "extractValidEmbeddings conv data"
  let ?vs = "vectors ?ex"
  let ?cs0 = "initialCentroids conv data k"
  let ?ls0 = "replicate (length ?vs) (0::nat)"
  let ?rounds = "kmeansRounds ?vs (dimension ?ex) maxIterations 0 ?ls0 ?cs0"
  have R: "exactRounds conv data k maxIterations = ?rounds"
    by (simp add: exactRounds_def Let_def)
  have J: "map (roundInertia conv data) ?rounds = map (\<lambda>(ls, cs). inertiaOf ?vs ls cs) ?rounds"
    by (simp add: roundInertia_def split_beta)
  note st = initial_state[OF assms(2)]
  note nd = initial_nondegenerate[OF assms(2)]
  show ne: "exactRounds conv data k maxIterations \<noteq> []"
    unfolding R by (rule kmeansRounds_nonempty[OF assms(1)])
  show chain: "sorted_wrt (\<lambda>a b. b \<le> a)
      (initialInertia conv data k # map (roundInertia conv data) (exactRounds conv data k maxIterations))"
    using kmeansRounds_chain[OF st, of maxIterations 0]
    unfolding R J by (simp add: initialInertia_def Let_def)
  obtain ls cs its where loop:
    "kmeansLoop ?vs (dimension ?ex) maxIterations 0 ?ls0 ?cs0 = (ls, cs, its)"
    by (cases "kmeansLoop ?vs (dimension ?ex) maxIterations 0 ?ls0 ?cs0")
  from kmeansLoop_last[OF loop] ne have l: "(ls, cs) = last ?rounds"
    unfolding R by simp
  then have fs: "fst (last ?rounds) = ls" "snd (last ?rounds) = cs"
    by (metis fst_conv, metis snd_conv)
  have res: "runKMeans conv data k maxIterations =
      \<lparr>labels = fullLabels (length data) (indices ?ex) (map int ls), centroids = cs,
       iterations = Some its, inertia = Some (toFixed (inertiaOf ?vs ls cs) 3), noiseCount = None\<rparr>"
    using nd assms(2) loop by (simp add: runKMeans_def Let_def initialCentroids_def)
  show "labels (runKMeans conv data k maxIterations) =
      fullLabels (length data) (indices ?ex) (map int (fst (last (exactRounds conv data k maxIterations))))"
    unfolding R fs res by simp
  show "centroids (runKMeans conv data k maxIterations) = snd (last (exactRounds conv data k maxIterations))"
    unfolding R fs res by simp
  show "inertia (runKMeans conv data k maxIterations) =
      Some (toFixed (roundInertia conv data (last (exactRounds conv data k maxIterations))) 3)"
    unfolding R roundInertia_def fs res by simp
  have mem: "last ?rounds \<in> set ?rounds" using ne unfolding R by (rule last_in_set)
  from chain have "\<forall>x \<in> set ?rounds. roundInertia conv data x \<le> initialInertia conv data k"
    unfolding R by simp
  with mem have "roundInertia conv data (last ?rounds) \<le> initialInertia conv data k"
    by blast
  moreover have "0 \<le> roundInertia conv data (last ?rounds)"
    by (simp add: roundInertia_def inertiaOf_nonneg)
  ultimately show "toFixed (roundInertia conv data (last (exactRounds conv data k maxIterations))) 3
      \<le> toFixed (initialInertia conv data k) 3"
    unfolding R by (rule toFixed_mono[rotated])
qed

section \<open>The claims\<close>

subsection \<open>C1: DBSCAN with non-positive parameters\<close>

text \<open>
  C1, as the claim states it, fails. \<^verbatim>\<open>runDbscan\<close> has no test of its parameters. With
  \<open>minPts = 0\<close> no neighbourhood is too small, and with \<open>eps = 0\<close> and \<open>minPts = 1\<close> a row
  is its own neighbourhood: on the batch of the single row \<open>[0]\<close> both runs put the row in
  cluster \<open>0\<close>, with \<^verbatim>\<open>noiseCount\<close> \<open>0\<close>.
\<close>

theorem C1_counterexample:
  "runDbscan notNumeric [node (numbers [0])] 1 0 =
     Some \<lparr>labels = [0], centroids = [[0]], iterations = None, inertia = None, noiseCount = Some 0\<rparr>
   \<and> runDbscan notNumeric [node (numbers [0])] 0 1 =
     Some \<lparr>labels = [0], centroids = [[0]], iterations = None, inertia = None, noiseCount = Some 0\<rparr>"
  by (simp add: runDbscan_def extract_single dbscanLoop.simps expand.simps regionQuery_def
      dist_single dbscanCentroids_def meanOf_single fullLabels_def enumerate_eq_zip Let_def)

text \<open>
  C1, amended: for every batch, if \<^verbatim>\<open>runDbscan\<close> is invoked with \<open>eps < 0\<close> and
  \<open>minPts > 0\<close>, it returns, every row is labelled \<open>-1\<close>, there is no centroid, and
  \<^verbatim>\<open>noiseCount\<close> is the number of input rows.
\<close>

theorem C1_negative_eps_all_noise:
  assumes "eps < 0" "0 < minPts"
  shows "runDbscan conv data eps minPts =
     Some \<lparr>labels = replicate (length data) (- 1), centroids = [], iterations = None,
           inertia = None, noiseCount = Some (length data)\<rparr>"
proof -
  let ?ex = "extractValidEmbeddings conv data"
  have len: "length (vectors ?ex) = length (indices ?ex)"
    using extract_rowsOk[of conv data] by (simp add: rowsOk_def)
  have loop: "dbscanLoop (vectors ?ex) eps minPts 0 (replicate (length (indices ?ex)) (- 1)) {} 0
      = Some (replicate (length (indices ?ex)) (- 1), 0)"
    by (rule dbscanLoop_negative_eps[OF assms]) simp
  show ?thesis
    by (simp add: runDbscan_def Let_def loop len fullLabels_noise dbscanCentroids_def)
qed

text \<open>C1, amended, at two equal rows with \<open>eps = -1\<close> and \<open>minPts = 2\<close>.\<close>

theorem C1_negative_eps_all_noise_witness:
  "(- 1 :: real) < 0 \<and> (0 :: real) < 2 \<and>
   runDbscan notNumeric [node (numbers [0]), node (numbers [0])] (- 1) 2 =
     Some \<lparr>labels = [- 1, - 1], centroids = [], iterations = None, inertia = None,
           noiseCount = Some 2\<rparr>"
  using C1_negative_eps_all_noise[of "- 1" 2 notNumeric "[node (numbers [0]), node (numbers [0])]"]
  by simp

subsection \<open>C2: determinism under a seed\<close>

lemma cross_rows:
  "those (map (\<lambda>n. arrayOf (embedding n)) crossBatch) = Some [[1, 0], [- 1, 0], [0, 1], [0, - 1]]"
  by (simp add: crossBatch_def node_def numbers_def)

lemma cross_centered:
  "centerRows (meanVector (Suc (Suc 0)) [[1, 0], [- 1, 0], [0, 1], [0, - 1]])
     [[1, 0], [- 1, 0], [0, 1], [0, - 1]] = [[1, 0], [- 1, 0], [0, 1], [0, - 1]]"
  by (simp add: centerRows_def meanVector_def enumerate_eq_zip upt_rec)

lemma cross_covariance:
  "covarianceOf (Suc (Suc 0)) (Suc (Suc (Suc (Suc 0)))) [[1, 0], [- 1, 0], [0, 1], [0, - 1]] = crossCovariance"
  by (simp add: covarianceOf_def upperPairs_def upt_rec crossCovariance_def Let_def)

lemma length_crossCovariance: "length crossCovariance = Suc (Suc 0)"
  by (simp add: crossCovariance_def)

lemma cross_multiply:
  "multiply crossCovariance [3 / 5, 4 / 5] = [2 / 5, 8 / 15]"
  "multiply crossCovariance [4 / 5, 3 / 5] = [8 / 15, 2 / 5]"
  by (simp_all add: multiply_def crossCovariance_def upt_rec numeral_eq_Suc)

lemma cross_step:
  "powerStep crossCovariance [] [3 / 5, 4 / 5] = [3 / 5, 4 / 5]"
  "powerStep crossCovariance [] [4 / 5, 3 / 5] = [4 / 5, 3 / 5]"
  by (simp_all add: powerStep_def cross_multiply normalize_known[where c = "2 / 3"] normSq_def)

lemma cross_first:
  "snd (powerIteration drawsA 0 crossCovariance [] 120) = [3 / 5, 4 / 5]"
  "snd (powerIteration drawsB 0 crossCovariance [] 120) = [4 / 5, 3 / 5]"
  by (simp_all add: powerIteration_def Let_def length_crossCovariance upt2 drawsA_def drawsB_def start_AB
      funpow_fixed[where f = "powerStep crossCovariance []", OF cross_step(1)]
      funpow_fixed[where f = "powerStep crossCovariance []", OF cross_step(2)])

lemma cross_components:
  "hd (components (projectRows drawsA [[1, 0], [- 1, 0], [0, 1], [0, - 1]])) = [3 / 5, 4 / 5]"
  "hd (components (projectRows drawsB [[1, 0], [- 1, 0], [0, 1], [0, - 1]])) = [4 / 5, 3 / 5]"
  by (simp_all add: projectRows_def Let_def cross_centered cross_covariance cross_first)

text \<open>
  C2, as the claim states it, fails for the projector. \<^verbatim>\<open>powerIteration\<close> fills its
  initial vector from \<^verbatim>\<open>Math.random()\<close>, and \<^verbatim>\<open>projectTo2D\<close> has no seed parameter. On
  the four unit points on the axes two runs that differ only in what \<^verbatim>\<open>Math.random()\<close>
  returns give different first components, \<open>[0.6, 0.8]\<close> and \<open>[0.8, 0.6]\<close>.
\<close>

theorem C2_counterexample:
  "projectTo2D drawsA crossBatch \<noteq> projectTo2D drawsB crossBatch"
proof -
  have ne: "crossBatch \<noteq> []" by (simp add: crossBatch_def)
  have "map_option (\<lambda>r. hd (components r)) (projectTo2D drawsA crossBatch) = Some [3 / 5, 4 / 5]"
    using ne by (simp add: projectTo2D_def cross_rows cross_components)
  moreover have "map_option (\<lambda>r. hd (components r)) (projectTo2D drawsB crossBatch) = Some [4 / 5, 3 / 5]"
    using ne by (simp add: projectTo2D_def cross_rows cross_components)
  ultimately show ?thesis by force
qed

text \<open>
  C2, amended. \<^verbatim>\<open>runKMeans\<close> seeds its generator with the constant \<open>1993\<close> and reads
  nothing else: its result is a function of the batch, \<open>k\<close> and the iteration cap, which
  is what the function \<open>runKMeans\<close> of this theory is. The projector cannot be seeded;
  its result is a function of the batch and of the first \<open>2 d\<close> values that
  \<^verbatim>\<open>Math.random()\<close> returns, \<open>d\<close> being the length of the first embedding: two runs that
  agree on these draws return the same components and points.
\<close>

theorem C2_projector_follows_draws:
  assumes "\<forall>i < 2 * arrayLength (embedding (data ! 0)). rnd i = rnd' i"
  shows "projectTo2D rnd data = projectTo2D rnd' data"
proof (cases "data \<noteq> [] \<and> list_all (\<lambda>n. isArray (embedding n)) data")
  case True
  from those_arrays[of data] True obtain rows where
    r: "those (map (\<lambda>n. arrayOf (embedding n)) data) = Some rows"
      "\<forall>i < length data. length (rows ! i) = arrayLength (embedding (data ! i))"
    by blast
  from r(2) True have "length (rows ! 0) = arrayLength (embedding (data ! 0))" by simp
  with assms have "projectRows rnd rows = projectRows rnd' rows"
    by (intro projectRows_draws) simp
  with r(1) show ?thesis by (simp add: projectTo2D_def)
next
  case False
  then show ?thesis
    by (auto simp: projectTo2D_def those_not_array)
qed

text \<open>C2, amended, at two runs that agree on the four draws made for the four unit points.\<close>

theorem C2_projector_follows_draws_witness:
  "projectTo2D drawsA crossBatch = projectTo2D drawsA4 crossBatch"
proof -
  have "arrayLength (embedding (crossBatch ! 0)) = 2"
    by (simp add: crossBatch_def node_def numbers_def arrayLength_def)
  then have "\<forall>i < 2 * arrayLength (embedding (crossBatch ! 0)). drawsA i = drawsA4 i"
    by (simp add: drawsA4_def)
  from C2_projector_follows_draws[OF this] show ?thesis .
qed

subsection \<open>C3: the records the normalization drops\<close>

text \<open>
  C3, as the claim states it, fails: a record whose embedding is the array
  \<^verbatim>\<open>["high", null]\<close> holds no number, and it is kept, as the row \<open>[0, 0]\<close>.
\<close>

theorem C3_counterexample:
  "indices (extractValidEmbeddings notNumeric [node (JArray [JString ''high'', JNull])]) = [0]
   \<and> vectors (extractValidEmbeddings notNumeric [node (JArray [JString ''high'', JNull])]) = [[0, 0]]"
  by (simp add: extractValidEmbeddings_def enumerate_eq_zip extractStep_unfold node_def
      coerceEntry_def notNumeric_def fitRow_def hasElement_def coercedRow_def elementsOf_def)

text \<open>
  Holes. The array \<^verbatim>\<open>new Array(3)\<close> has the length \<open>3\<close> and no element: its record is dropped.
  The array \<^verbatim>\<open>[1, , 3]\<close> gives the row \<open>[1, 3]\<close>.
\<close>

lemma extract_sparse:
  "extractValidEmbeddings notNumeric
     [node (JArray [JHole, JHole, JHole]), node (JArray [JNumber (Fin 1), JHole, JNumber (Fin 3)])]
   = \<lparr>indices = [1], vectors = [[1, 3]], dimension = 2\<rparr>"
  by (simp add: extractValidEmbeddings_def enumerate_eq_zip extractStep_unfold node_def
      coerceEntry_def fitRow_def hasElement_def coercedRow_def elementsOf_def)

text \<open>
  C3, amended: a record is excluded from the matrix exactly when its embedding is not an
  array or is an array without an element (the empty array, or an array of holes only).
  The index map lists, in order, the records whose embedding is an array with an element,
  whatever the elements are. The dimension is the number of elements of the first of
  them. The row of each is made of its elements, every one coerced with \<^verbatim>\<open>Number\<close> and
  replaced by \<open>0\<close> when the result is not finite, and is cut or filled with \<open>0\<close> to the
  dimension.
\<close>

theorem C3_extract_keeps_arrays_with_elements:
  "indices (extractValidEmbeddings conv data) =
     filter (\<lambda>i. hasElement (embedding (data ! i))) [0..<length data]
   \<and> dimension (extractValidEmbeddings conv data) =
       (case filter (\<lambda>item. hasElement (embedding item)) data of
          [] \<Rightarrow> 0
        | item # _ \<Rightarrow> length (coercedRow conv (embedding item)))
   \<and> vectors (extractValidEmbeddings conv data) =
       map (\<lambda>i. fitRow (dimension (extractValidEmbeddings conv data))
                   (coercedRow conv (embedding (data ! i))))
         (indices (extractValidEmbeddings conv data))"
  by (simp add: extract_indices extract_rows firstDimension_def)

subsection \<open>C4: the agglomerative target below one\<close>

text \<open>
  C4, as the claim states it, fails. \<^verbatim>\<open>runAgglomerative\<close> tests \<^verbatim>\<open>targetClusters < 1\<close>
  and returns the all-noise result; the target is not raised to \<open>1\<close>. On the batch of the
  single row \<open>[0]\<close> the target \<open>0\<close> gives the label \<open>-1\<close> and no centroid, the target \<open>1\<close>
  gives the label \<open>0\<close> and the centroid \<open>[0]\<close>.
\<close>

theorem C4_counterexample:
  "runAgglomerative notNumeric [node (numbers [0])] 0 =
     Some \<lparr>labels = [- 1], centroids = [], iterations = None, inertia = None, noiseCount = None\<rparr>
   \<and> runAgglomerative notNumeric [node (numbers [0])] 1 =
     Some \<lparr>labels = [0], centroids = [[0]], iterations = None, inertia = None, noiseCount = None\<rparr>"
  by (simp add: runAgglomerative_def extract_single agglomerate.simps noClusters_def clusterLabels_def
      meanOf_single fullLabels_def enumerate_eq_zip Let_def)

text \<open>
  C4, amended: the target is not clamped. For every batch with at least one record whose
  embedding is an array with an element, and every target below \<open>1\<close>, \<^verbatim>\<open>runAgglomerative\<close>
  returns the label \<open>-1\<close> for every record and no centroid. With the target \<open>1\<close> it returns
  the label \<open>0\<close> for every such record, \<open>-1\<close> for the others, and one centroid; the two
  results differ.
\<close>

theorem C4_target_below_one_not_clamped:
  assumes "list_ex (\<lambda>item. hasElement (embedding item)) data" "targetClusters < 1"
  shows "runAgglomerative conv data targetClusters = Some (noClusters (length data))
       \<and> (\<exists>centroid. runAgglomerative conv data 1 =
            Some \<lparr>labels = map (\<lambda>i. if hasElement (embedding (data ! i)) then 0 else - 1) [0..<length data],
                  centroids = [centroid], iterations = None, inertia = None, noiseCount = None\<rparr>)
       \<and> runAgglomerative conv data targetClusters \<noteq> runAgglomerative conv data 1"
proof -
  have a: "runAgglomerative conv data targetClusters = Some (noClusters (length data))"
    using assms(2) by (simp add: runAgglomerative_def Let_def)
  from runAgglomerative_one[OF assms(1), of conv] obtain centroid where
    b: "runAgglomerative conv data 1 =
          Some \<lparr>labels = map (\<lambda>i. if hasElement (embedding (data ! i)) then 0 else - 1) [0..<length data],
                centroids = [centroid], iterations = None, inertia = None, noiseCount = None\<rparr>"
    by blast
  have "runAgglomerative conv data targetClusters \<noteq> runAgglomerative conv data 1"
    unfolding a b by (simp add: noClusters_def)
  with a b show ?thesis by blast
qed

text \<open>C4, amended, at three records of which the second has no embedding, and the target \<open>0\<close>.\<close>

theorem C4_target_below_one_not_clamped_witness:
  "list_ex (\<lambda>item. hasElement (embedding item)) mixedBatch \<and> (0::real) < 1
   \<and> runAgglomerative notNumeric mixedBatch 0 = Some (noClusters 3)
   \<and> (\<exists>centroid. runAgglomerative notNumeric mixedBatch 1 =
          Some \<lparr>labels = [0, - 1, 0], centroids = [centroid], iterations = None, inertia = None,
                noiseCount = None\<rparr>)
   \<and> runAgglomerative notNumeric mixedBatch 0 \<noteq> runAgglomerative notNumeric mixedBatch 1"
proof -
  have h: "list_ex (\<lambda>item. hasElement (embedding item)) mixedBatch"
    by (simp add: mixedBatch_def node_def numbers_def hasElement_def elementsOf_def)
  have l: "length mixedBatch = 3"
    "map (\<lambda>i. if hasElement (embedding (mixedBatch ! i)) then 0 else - 1) [0..<3] = [0, - 1, 0::int]"
    by (simp_all add: mixedBatch_def node_def numbers_def hasElement_def elementsOf_def
        upt_rec numeral_eq_Suc)
  have t: "(0::real) < 1" by simp
  from C4_target_below_one_not_clamped[OF h t, of notNumeric]
  have "runAgglomerative notNumeric mixedBatch 0 = Some (noClusters 3)
       \<and> (\<exists>centroid. runAgglomerative notNumeric mixedBatch 1 =
            Some \<lparr>labels = [0, - 1, 0], centroids = [centroid], iterations = None, inertia = None,
                  noiseCount = None\<rparr>)
       \<and> runAgglomerative notNumeric mixedBatch 0 \<noteq> runAgglomerative notNumeric mixedBatch 1"
    unfolding l .
  with h t show ?thesis by blast
qed

subsection \<open>C5: the inertia of K-Means\<close>

text \<open>
  The three sums and quotients that are rounded when the mean of the rows \<open>2\<^sup>5\<^sup>1 + 1\<close>,
  \<open>2\<^sup>5\<^sup>1 + 0.5\<close> and \<open>2\<^sup>5\<^sup>1 + 1.5\<close> is computed: the two partial sums are ties between
  neighbouring integers and go to the even one, and the quotient \<open>2\<^sup>5\<^sup>1 + 4/3\<close> goes to
  \<open>2\<^sup>5\<^sup>1 + 1.5\<close>.
\<close>

lemma roundings:
  "binary64 (9007199254740995 / 2) = 4503599627370498"
  "binary64 (13510798882111495 / 2) = 6755399441055748"
  "binary64 (6755399441055748 / 3) = 4503599627370499 / 2"
proof -
  have "binary64 (9007199254740995 / 2)
      = of_int (roundEven (9007199254740995 / 2 / 2 powi (52 - 52))) * 2 powi (52 - 52)"
    by (rule binary64_at) simp_all
  then show "binary64 (9007199254740995 / 2) = 4503599627370498"
    by (simp add: roundEven_def Let_def)
  have "binary64 (13510798882111495 / 2)
      = of_int (roundEven (13510798882111495 / 2 / 2 powi (52 - 52))) * 2 powi (52 - 52)"
    by (rule binary64_at) simp_all
  then show "binary64 (13510798882111495 / 2) = 6755399441055748"
    by (simp add: roundEven_def Let_def)
  have "binary64 (6755399441055748 / 3)
      = of_int (roundEven (6755399441055748 / 3 / 2 powi (51 - 52))) * 2 powi (51 - 52)"
    by (rule binary64_at) simp_all
  then show "binary64 (6755399441055748 / 3) = 4503599627370499 / 2"
    by (simp add: roundEven_def Let_def power_int_minus)
qed

lemma extract_roundingBatch:
  "extractValidEmbeddings conv roundingBatch = \<lparr>indices = [0, 1, 2, 3], vectors = roundingRows, dimension = 1\<rparr>"
  by (simp add: extractValidEmbeddings_def enumerate_eq_zip extractStep_def elementsOf_def
      roundingBatch_def roundingRows_def node_def numbers_def isFinite_def Let_def)

lemma choose_rounding:
  "chooseCentroids roundingRows 2 16 0 (createSeededRandom 1993) [] []
     = [[2251799813685249], [2251799813685349]]"
  by (simp add: chooseCentroids.simps draws_1993 Let_def roundingRows_def)

lemma roots:
  "sqrt (1 / 4) = 1 / 2" "sqrt 10000 = 100" "sqrt (40401 / 4) = 201 / 2" "sqrt (39601 / 4) = 199 / 2"
proof -
  have "sqrt ((1 / 2) * (1 / 2)) = \<bar>1 / 2\<bar>" by (rule real_sqrt_abs2)
  then show "sqrt (1 / 4) = 1 / 2" by simp
  have "sqrt (100 * 100) = \<bar>100\<bar>" by (rule real_sqrt_abs2)
  then show "sqrt 10000 = 100" by simp
  have "sqrt ((201 / 2) * (201 / 2)) = \<bar>201 / 2\<bar>" by (rule real_sqrt_abs2)
  then show "sqrt (40401 / 4) = 201 / 2" by simp
  have "sqrt ((199 / 2) * (199 / 2)) = \<bar>199 / 2\<bar>" by (rule real_sqrt_abs2)
  then show "sqrt (39601 / 4) = 199 / 2" by simp
qed

lemma euclideanDistanceR_single:
  "euclideanDistanceR fl [a] [c] = fl (sqrt (fl (0 + fl (fl (a - c) * fl (a - c)))))"
  by (simp add: euclideanDistanceR_def Let_def)

lemmas evalR = euclideanDistanceR_single binary64_minus binary64_numeral binary64_zero roots

lemma distances_start:
  "euclideanDistanceR binary64 [2251799813685249] [2251799813685249] = 0"
  "euclideanDistanceR binary64 [2251799813685249] [2251799813685349] = 100"
  "euclideanDistanceR binary64 [2251799813685349] [2251799813685249] = 100"
  "euclideanDistanceR binary64 [2251799813685349] [2251799813685349] = 0"
  "euclideanDistanceR binary64 [4503599627370497 / 2] [2251799813685249] = 1 / 2"
  "euclideanDistanceR binary64 [4503599627370497 / 2] [2251799813685349] = 201 / 2"
  "euclideanDistanceR binary64 [4503599627370499 / 2] [2251799813685249] = 1 / 2"
  "euclideanDistanceR binary64 [4503599627370499 / 2] [2251799813685349] = 199 / 2"
  by (simp_all add: evalR)

lemma distances_updated:
  "euclideanDistanceR binary64 [2251799813685249] [4503599627370499 / 2] = 1 / 2"
  "euclideanDistanceR binary64 [2251799813685349] [4503599627370499 / 2] = 199 / 2"
  "euclideanDistanceR binary64 [4503599627370497 / 2] [4503599627370499 / 2] = 1"
  "euclideanDistanceR binary64 [4503599627370499 / 2] [4503599627370499 / 2] = 0"
  by (simp_all add: evalR)


lemma assign_start:
  "map (bestClusterR binary64 [[2251799813685249], [2251799813685349]]) roundingRows = [0, Suc 0, 0, 0]"
  by (simp add: roundingRows_def bestClusterR_def distances_start)

lemma assign_updated:
  "map (bestClusterR binary64 [[4503599627370499 / 2], [2251799813685349]]) roundingRows = [0, Suc 0, 0, 0]"
  by (simp add: roundingRows_def bestClusterR_def distances_start distances_updated)

lemma update_rounding:
  "updateCentroidsR binary64 (Suc 0) roundingRows [0, Suc 0, 0, 0] [[2251799813685249], [2251799813685349]]
     = [[4503599627370499 / 2], [2251799813685349]]"
  by (simp add: updateCentroidsR_def clusterSumsR_def clusterCounts_def roundingRows_def
      upt_rec numeral_eq_Suc Let_def binary64_numeral roundings)

lemma loop_rounding:
  "kmeansLoopR binary64 roundingRows (Suc 0) 40 0 [0, 0, 0, 0] [[2251799813685249], [2251799813685349]]
     = ([0, Suc 0, 0, 0], [[4503599627370499 / 2], [2251799813685349]], Suc 0)"
  by (simp add: kmeansLoopR.simps[of _ _ _ _ 0] kmeansLoopR.simps[of _ _ _ _ "Suc 0"]
      assign_start assign_updated update_rounding)

lemma inertia_rounding:
  "inertiaOfR binary64 roundingRows [0, Suc 0, 0, 0] [[2251799813685249], [2251799813685349]] = 1 / 2"
  "inertiaOfR binary64 roundingRows [0, Suc 0, 0, 0] [[4503599627370499 / 2], [2251799813685349]] = 5 / 4"
  by (simp_all add: inertiaOfR_def roundingRows_def distances_start distances_updated
      upt_rec numeral_eq_Suc binary64_numeral binary64_zero power2_eq_square)

lemma toFixed_rounding: "toFixed (5 / 4) 3 = 5 / 4" "toFixed (1 / 2) 3 = 1 / 2"
  by (simp_all add: toFixed_def)

text \<open>
  C5, as the claim states it, fails. On the four rows \<open>2\<^sup>5\<^sup>1 + 1\<close>, \<open>2\<^sup>5\<^sup>1 + 101\<close>,
  \<open>2\<^sup>5\<^sup>1 + 0.5\<close>, \<open>2\<^sup>5\<^sup>1 + 1.5\<close> with \<open>k = 2\<close> the initial centroids are the first two rows,
  and the first assignment puts the rows \<open>0\<close>, \<open>2\<close>, \<open>3\<close> together: inertia \<open>0.5\<close>. Their
  mean is \<open>2\<^sup>5\<^sup>1 + 1\<close>; the source computes \<open>2\<^sup>5\<^sup>1 + 1.5\<close>, the second round changes no
  label, and the inertia reported is \<open>1.25\<close>.
\<close>

theorem C5_counterexample:
  "initialInertiaR binary64 notNumeric roundingBatch 2 = 1 / 2
   \<and> inertia (runKMeansR binary64 notNumeric roundingBatch 2 40) = Some (5 / 4)"
proof -
  have ne: "roundingBatch \<noteq> []" "roundingRows \<noteq> []"
    "replicate 4 0 = [0, 0, 0, 0::nat]" "length roundingRows = 4"
    by (simp_all add: roundingBatch_def roundingRows_def numeral_eq_Suc)
  have cs0: "initialCentroids notNumeric roundingBatch 2 = [[2251799813685249], [2251799813685349]]"
    using choose_rounding by (simp add: initialCentroids_def extract_roundingBatch ne Let_def)
  have "initialInertiaR binary64 notNumeric roundingBatch 2 = 1 / 2"
    by (simp add: initialInertiaR_def cs0 extract_roundingBatch Let_def assign_start inertia_rounding)
  moreover have "inertia (runKMeansR binary64 notNumeric roundingBatch 2 40) = Some (5 / 4)"
    using loop_rounding
    by (simp add: runKMeansR_def ne cs0 extract_roundingBatch Let_def inertia_rounding
        toFixed_rounding binary64_numeral)
  ultimately show ?thesis by simp
qed

text \<open>
  C5, amended. In the arithmetic of the source, assigning every row to its nearest centroid
  never raises the inertia: from every state in which each label names a centroid, the
  inertia of the new labels against the same centroids is at most that of the old ones.
  The recomputation of the centroids lowers the inertia in exact arithmetic only. There,
  with an iteration cap above \<open>0\<close> and at least one initial centroid, the loop makes at
  least one round, the inertias of the initial assignment and of the states after the
  rounds never increase, \<^verbatim>\<open>runKMeans\<close> returns the labels and centroids of the last round
  and reports its inertia rounded to three decimals, which is at most the inertia of the
  initial assignment rounded likewise.
\<close>

theorem C5_reassignment_rounded_and_rounds_exact:
  "(kmeansState dimn vs ls cs \<longrightarrow>
      inertiaOfR binary64 vs (map (bestClusterR binary64 cs) vs) cs \<le> inertiaOfR binary64 vs ls cs)
   \<and> (0 < maxIterations \<and> initialCentroids conv data k \<noteq> [] \<longrightarrow>
        exactRounds conv data k maxIterations \<noteq> []
        \<and> sorted_wrt (\<lambda>a b. b \<le> a)
            (initialInertia conv data k # map (roundInertia conv data) (exactRounds conv data k maxIterations))
        \<and> labels (runKMeans conv data k maxIterations) =
            fullLabels (length data) (indices (extractValidEmbeddings conv data))
              (map int (fst (last (exactRounds conv data k maxIterations))))
        \<and> centroids (runKMeans conv data k maxIterations) = snd (last (exactRounds conv data k maxIterations))
        \<and> inertia (runKMeans conv data k maxIterations) =
            Some (toFixed (roundInertia conv data (last (exactRounds conv data k maxIterations))) 3)
        \<and> toFixed (roundInertia conv data (last (exactRounds conv data k maxIterations))) 3
            \<le> toFixed (initialInertia conv data k) 3)"
proof (intro conjI impI)
  assume "kmeansState dimn vs ls cs"
  then show "inertiaOfR binary64 vs (map (bestClusterR binary64 cs) vs) cs \<le> inertiaOfR binary64 vs ls cs"
    by (intro assign_decreasesR[OF monotoneRounding_binary64])
       (simp_all add: kmeansState_def list_all_iff)
next
  assume a: "0 < maxIterations \<and> initialCentroids conv data k \<noteq> []"
  then have a1: "0 < maxIterations" and a2: "initialCentroids conv data k \<noteq> []" by blast+
  show "exactRounds conv data k maxIterations \<noteq> []"
    by (rule exact_rounds(1)[OF a1 a2])
  show "sorted_wrt (\<lambda>a b. b \<le> a)
      (initialInertia conv data k # map (roundInertia conv data) (exactRounds conv data k maxIterations))"
    by (rule exact_rounds(2)[OF a1 a2])
  show "labels (runKMeans conv data k maxIterations) =
      fullLabels (length data) (indices (extractValidEmbeddings conv data))
        (map int (fst (last (exactRounds conv data k maxIterations))))"
    by (rule exact_rounds(3)[OF a1 a2])
  show "centroids (runKMeans conv data k maxIterations) = snd (last (exactRounds conv data k maxIterations))"
    by (rule exact_rounds(4)[OF a1 a2])
  show "inertia (runKMeans conv data k maxIterations) =
      Some (toFixed (roundInertia conv data (last (exactRounds conv data k maxIterations))) 3)"
    by (rule exact_rounds(5)[OF a1 a2])
  show "toFixed (roundInertia conv data (last (exactRounds conv data k maxIterations))) 3
      \<le> toFixed (initialInertia conv data k) 3"
    by (rule exact_rounds(6)[OF a1 a2])
qed

text \<open>
  The rows \<open>[0]\<close>, \<open>[10]\<close>, \<open>[1]\<close>, \<open>[2]\<close> with \<open>k = 2\<close>: the initial centroids are \<open>[0]\<close> and
  \<open>[10]\<close>, the first round moves the first to \<open>[1]\<close>, the second changes no label.
\<close>

lemma extract_stepBatch:
  "extractValidEmbeddings conv stepBatch = \<lparr>indices = [0, 1, 2, 3], vectors = stepRows, dimension = 1\<rparr>"
  by (simp add: extractValidEmbeddings_def enumerate_eq_zip extractStep_def elementsOf_def
      stepBatch_def stepRows_def node_def numbers_def isFinite_def Let_def)

lemma choose_step:
  "chooseCentroids stepRows 2 16 0 (createSeededRandom 1993) [] [] = [[0], [10]]"
  by (simp add: chooseCentroids.simps draws_1993 Let_def stepRows_def)

lemma initial_step: "initialCentroids notNumeric stepBatch 2 = [[0], [10]]"
  using choose_step by (simp add: initialCentroids_def extract_stepBatch stepRows_def Let_def)

lemma euclideanDistance_single: "euclideanDistance [a] [c] = \<bar>a - c\<bar>"
  by (simp add: euclideanDistance_def)

lemma assign_step:
  "map (bestCluster [[0], [10]]) stepRows = [0, Suc 0, 0, 0]"
  "map (bestCluster [[1], [10]]) stepRows = [0, Suc 0, 0, 0]"
  by (simp_all add: stepRows_def bestCluster_def euclideanDistance_single)

lemma update_step:
  "updateCentroids (Suc 0) stepRows [0, Suc 0, 0, 0] [[0], [10]] = [[1], [10]]"
  by (simp add: updateCentroids_def clusterSums_def clusterCounts_def stepRows_def
      upt_rec numeral_eq_Suc Let_def)

lemma rounds_step:
  "kmeansRounds stepRows (Suc 0) 40 0 [0, 0, 0, 0] [[0], [10]]
     = [([0, Suc 0, 0, 0], [[1], [10]]), ([0, Suc 0, 0, 0], [[1], [10]])]"
  by (simp add: kmeansRounds.simps[of _ _ _ 0] kmeansRounds.simps[of _ _ _ "Suc 0"]
      assign_step update_step Let_def)

lemma inertia_step:
  "inertiaOf stepRows [0, Suc 0, 0, 0] [[0], [10]] = 5"
  "inertiaOf stepRows [0, Suc 0, 0, 0] [[1], [10]] = 2"
  by (simp_all add: inertiaOf_def stepRows_def euclideanDistance_single upt_rec numeral_eq_Suc)

lemma exactRounds_step:
  "exactRounds notNumeric stepBatch 2 40
     = [([0, Suc 0, 0, 0], [[1], [10]]), ([0, Suc 0, 0, 0], [[1], [10]])]"
  using rounds_step
  by (simp add: exactRounds_def extract_stepBatch initial_step Let_def stepRows_def)

text \<open>
  C5, amended, at these rows: the inertia is \<open>5\<close> for the initial assignment and \<open>2\<close> after
  each of the two rounds.
\<close>

theorem C5_reassignment_rounded_and_rounds_exact_witness:
  "kmeansState 1 stepRows [0, 0, 0, 0] [[0], [10]]
   \<and> inertiaOfR binary64 stepRows (map (bestClusterR binary64 [[0], [10]]) stepRows) [[0], [10]]
       \<le> inertiaOfR binary64 stepRows [0, 0, 0, 0] [[0], [10]]
   \<and> (0::nat) < 40 \<and> initialCentroids notNumeric stepBatch 2 = [[0], [10]]
   \<and> exactRounds notNumeric stepBatch 2 40 = [([0, 1, 0, 0], [[1], [10]]), ([0, 1, 0, 0], [[1], [10]])]
   \<and> initialInertia notNumeric stepBatch 2 = 5
   \<and> map (roundInertia notNumeric stepBatch) (exactRounds notNumeric stepBatch 2 40) = [2, 2]
   \<and> sorted_wrt (\<lambda>a b. b \<le> a)
        (initialInertia notNumeric stepBatch 2
           # map (roundInertia notNumeric stepBatch) (exactRounds notNumeric stepBatch 2 40))
   \<and> centroids (runKMeans notNumeric stepBatch 2 40) = [[1], [10]]
   \<and> inertia (runKMeans notNumeric stepBatch 2 40) = Some 2"
proof -
  have st: "kmeansState 1 stepRows [0, 0, 0, 0] [[0], [10]]"
    by (simp add: kmeansState_def stepRows_def)
  have ini: "initialInertia notNumeric stepBatch 2 = 5"
    by (simp add: initialInertia_def initial_step extract_stepBatch Let_def assign_step inertia_step)
  have ri: "map (roundInertia notNumeric stepBatch) (exactRounds notNumeric stepBatch 2 40) = [2, 2]"
    by (simp add: exactRounds_step roundInertia_def extract_stepBatch inertia_step)
  have tf: "toFixed 2 3 = 2" by (simp add: toFixed_def)
  have la: "last (exactRounds notNumeric stepBatch 2 40) = ([0, Suc 0, 0, 0], [[1], [10]])"
    by (simp add: exactRounds_step)
  have rl: "roundInertia notNumeric stepBatch ([0, Suc 0, 0, 0], [[1], [10]]) = 2"
    by (simp add: roundInertia_def extract_stepBatch inertia_step)
  from C5_reassignment_rounded_and_rounds_exact[of 1 stepRows "[0, 0, 0, 0]" "[[0], [10]]" 40
      notNumeric stepBatch 2] st
  show ?thesis
    by (simp add: initial_step exactRounds_step ini ri la rl tf)
qed

subsection \<open>C7: the domain of the labels\<close>

text \<open>
  C7: for every batch and each of the three algorithms, every returned label is \<open>-1\<close> or
  a non-negative integer below the number of returned centroids; \<^verbatim>\<open>runAgglomerative\<close> and
  \<^verbatim>\<open>runDbscan\<close> return (they do not throw); and for DBSCAN the non-negative labels that
  occur are exactly \<open>0, \<dots>, m - 1\<close>, \<open>m\<close> being the number of returned centroids, so that
  every cluster id below \<open>m\<close> has a member.
\<close>

theorem C7_label_domain:
  "(\<forall>l \<in> set (labels (runKMeans conv data k maxIterations)).
       l = - 1 \<or> (0 \<le> l \<and> l < int (length (centroids (runKMeans conv data k maxIterations)))))
   \<and> (\<exists>r. runAgglomerative conv data targetClusters = Some r \<and>
         (\<forall>l \<in> set (labels r). l = - 1 \<or> (0 \<le> l \<and> l < int (length (centroids r)))))
   \<and> (\<exists>r. runDbscan conv data eps minPts = Some r \<and>
         (\<forall>l \<in> set (labels r). l = - 1 \<or> (0 \<le> l \<and> l < int (length (centroids r)))) \<and>
         {l \<in> set (labels r). 0 \<le> l} = int ` {..<length (centroids r)})"
proof -
  from runDbscan_labels[of conv data eps minPts] obtain r where
    r: "runDbscan conv data eps minPts = Some r"
      "\<forall>l \<in> set (labels r). l = - 1 \<or> (0 \<le> l \<and> l < int (length (centroids r)))"
      "\<forall>c < length (centroids r). int c \<in> set (labels r)"
    by blast
  have "{l \<in> set (labels r). 0 \<le> l} = int ` {..<length (centroids r)}"
  proof (intro set_eqI iffI)
    fix l assume "l \<in> {l \<in> set (labels r). 0 \<le> l}"
    with r(2) have "0 \<le> l" "l < int (length (centroids r))" by auto
    then have "nat l < length (centroids r)" "l = int (nat l)" by simp_all
    then show "l \<in> int ` {..<length (centroids r)}" by blast
  next
    fix l assume "l \<in> int ` {..<length (centroids r)}"
    with r(3) show "l \<in> {l \<in> set (labels r). 0 \<le> l}" by auto
  qed
  with r(1,2) runKMeans_labels[of conv data k maxIterations]
    runAgglomerative_labels[of conv data targetClusters]
  show ?thesis by blast
qed

lemma extract_threeRows:
  "extractValidEmbeddings conv threeRows = \<lparr>indices = [0, 1, 2], vectors = [[0], [0], [9]], dimension = 1\<rparr>"
  by (simp add: extractValidEmbeddings_def enumerate_eq_zip extractStep_unfold hasElement_def coercedRow_def
      elementsOf_def threeRows_def node_def
      numbers_def coerceEntry_def fitRow_def upt_rec numeral_eq_Suc)

lemma dist_three:
  "euclideanDistance [0] [0] = 0"
  "euclideanDistance [9] [9] = 0"
  "euclideanDistance [0] [9] = 9"
  "euclideanDistance [9] [0] = 9"
  by (simp_all add: euclideanDistance_def)

lemma draws_three:
  "rand (createSeededRandom 1993) = (534630677 / 4294967296, 534630677)"
  "rand 534630677 = (437575338 / 4294967296, 437575338)"
  "rand 437575338 = (- 1175087350 / 4294967296, 3119879946)"
  "rand 3119879946 = (1770947200 / 4294967296, 1770947200)"
  by (simp_all add: rand_def createSeededRandom_def Let_def)

lemma kmeans_three:
  "runKMeans notNumeric threeRows 2 40 =
     \<lparr>labels = [0, 0, 0], centroids = [[0], [0]], iterations = Some 0, inertia = Some 81,
      noiseCount = None\<rparr>"
proof -
  have ne: "threeRows \<noteq> []" "length threeRows = 3" by (simp_all add: threeRows_def)
  have c: "chooseCentroids [[0], [0], [9]] 2 12 0 (createSeededRandom 1993) [] [] = [[0], [0]]"
    by (simp add: chooseCentroids.simps draws_three Let_def)
  have b: "bestCluster [[0], [0]] [0] = 0" "bestCluster [[0], [0]] [9] = 0"
    by (simp_all add: bestCluster_def dist_three)
  have l: "kmeansLoop [[0], [0], [9]] (Suc 0) 40 0 [0, 0, 0] [[0], [0]] = ([0, 0, 0], [[0], [0]], 0)"
    by (simp add: kmeansLoop.simps b)
  have i: "inertiaOf [[0], [0], [9]] [0, 0, 0] [[0], [0]] = 81"
    by (simp add: inertiaOf_def dist_three upt_rec numeral_eq_Suc)
  have t: "toFixed 81 3 = 81" by (simp add: toFixed_def)
  have f: "fullLabels 3 [0, Suc 0, 2] [0, 0, 0] = [0, 0, 0]"
    by (simp add: fullLabels_def enumerate_eq_zip upt_rec numeral_eq_Suc)
  show ?thesis
    using c l by (simp add: runKMeans_def ne extract_threeRows Let_def i t f)
qed

lemma dbscan_three:
  "runDbscan notNumeric threeRows 1 2 =
     Some \<lparr>labels = [0, 0, - 1], centroids = [[0]], iterations = None, inertia = None,
           noiseCount = Some 1\<rparr>"
proof -
  have ne: "threeRows \<noteq> []" "length threeRows = 3" by (simp_all add: threeRows_def)
  have q: "regionQuery [[0], [0], [9]] 1 0 = [0, 1]" "regionQuery [[0], [0], [9]] 1 (Suc 0) = [0, 1]"
    "regionQuery [[0], [0], [9]] 1 (Suc (Suc 0)) = [2]"
    by (simp_all add: regionQuery_def dist_three upt_rec numeral_eq_Suc)
  have e: "expand [[0], [0], [9]] 1 2 0 [0, Suc 0] [0, - 1, - 1] {0} = Some ([0, 0, - 1], {0, Suc 0})"
    by (simp add: expand.simps q pushNew_def Let_def insert_commute)
  have l: "dbscanLoop [[0], [0], [9]] 1 2 0 [- 1, - 1, - 1] {} 0 = Some ([0, 0, - 1], Suc 0)"
    by (simp add: dbscanLoop.simps q e Let_def)
  have m: "meanOf (Suc 0) [[0], [0], [9]] [0, Suc 0] = [0]"
    by (simp add: meanOf_def enumerate_eq_zip)
  have c: "dbscanCentroids (Suc 0) [[0], [0], [9]] [0, 0, - 1] (Suc 0) = [[0]]"
    by (simp add: dbscanCentroids_def m upt_rec numeral_eq_Suc)
  have f: "fullLabels 3 [0, Suc 0, 2] [0, 0, - 1] = [0, 0, - 1]"
    by (simp add: fullLabels_def enumerate_eq_zip upt_rec numeral_eq_Suc)
  show ?thesis
    using l by (simp add: runDbscan_def ne extract_threeRows Let_def c f)
qed

lemma agglo_three:
  "runAgglomerative notNumeric threeRows 2 =
     Some \<lparr>labels = [0, 0, 1], centroids = [[0], [9]], iterations = None, inertia = None,
           noiseCount = None\<rparr>"
proof -
  have ne: "threeRows \<noteq> []" "length threeRows = 3" by (simp_all add: threeRows_def)
  have cp: "closestPair [[0], [0], [9]] [[0], [Suc 0], [Suc (Suc 0)]] Map.empty =
      ((0, Suc 0, Some 0),
       [([0], [Suc 0]) \<mapsto> 0, ([0], [Suc (Suc 0)]) \<mapsto> 9, ([Suc 0], [Suc (Suc 0)]) \<mapsto> 9])"
    by (simp add: closestPair_def pairStep_def clusterDistance_def dist_three upt_rec Let_def)
  have a: "agglomerate [[0], [0], [9]] 2 [[0], [Suc 0], [Suc (Suc 0)]] Map.empty
      = Some [[0, Suc 0], [Suc (Suc 0)]]"
    by (simp add: agglomerate.simps[of _ _ "[[0], [Suc 0], [Suc (Suc 0)]]"]
        agglomerate.simps[of _ _ "[[0, Suc 0], [Suc (Suc 0)]]"] cp splice_def)
  have m: "meanOf (Suc 0) [[0], [0], [9]] [0, Suc 0] = [0]"
    "meanOf (Suc 0) [[0], [0], [9]] [Suc (Suc 0)] = [9]"
    by (simp_all add: meanOf_def enumerate_eq_zip)
  have cl: "clusterLabels (Suc (Suc (Suc 0))) [[0, Suc 0], [Suc (Suc 0)]] = [0, 0, Suc 0]"
    by (simp add: clusterLabels_def enumerate_eq_zip)
  have f: "fullLabels 3 [0, Suc 0, 2] [0, 0, 1] = [0, 0, 1]"
    by (simp add: fullLabels_def enumerate_eq_zip upt_rec numeral_eq_Suc)
  show ?thesis
    by (simp add: runAgglomerative_def ne extract_threeRows Let_def a m cl f)
qed

text \<open>
  C7 at the three rows \<open>[0]\<close>, \<open>[0]\<close>, \<open>[9]\<close>: K-Means with \<open>k = 2\<close>, the agglomerative
  strategy with target \<open>2\<close>, DBSCAN with \<open>eps = 1\<close> and \<open>minPts = 2\<close>.
\<close>

theorem C7_label_domain_witness:
  "labels (runKMeans notNumeric threeRows 2 40) = [0, 0, 0]
   \<and> length (centroids (runKMeans notNumeric threeRows 2 40)) = 2
   \<and> runAgglomerative notNumeric threeRows 2 =
       Some \<lparr>labels = [0, 0, 1], centroids = [[0], [9]], iterations = None, inertia = None,
             noiseCount = None\<rparr>
   \<and> runDbscan notNumeric threeRows 1 2 =
       Some \<lparr>labels = [0, 0, - 1], centroids = [[0]], iterations = None, inertia = None,
             noiseCount = Some 1\<rparr>"
  using C7_label_domain[of notNumeric threeRows 2 40 2 1 2]
  by (simp add: kmeans_three agglo_three dbscan_three)

subsection \<open>C8: the trivial K-Means scenario\<close>

lemma extract_trivialBatch:
  "extractValidEmbeddings conv trivialBatch =
     \<lparr>indices = [0, 1, 2, 3], vectors = [[0, 0], [0, 0], [10, 10], [10, 10]], dimension = 2\<rparr>"
  by (simp add: extractValidEmbeddings_def enumerate_eq_zip extractStep_def elementsOf_def trivialBatch_def node_def
      numbers_def isFinite_def Let_def)

lemma choose_trivial:
  "chooseCentroids [[0, 0], [0, 0], [10, 10], [10, 10]] 2 16 0 (createSeededRandom 1993) [] []
     = [[0, 0], [0, 0]]"
  by (simp add: chooseCentroids.simps draws_1993 Let_def)


lemma dist_trivial:
  "euclideanDistance [0, 0] [0, 0] = 0"
  "euclideanDistance [10, 10] [10, 10] = 0"
  "euclideanDistance [10, 10] [0, 0] = sqrt 200"
  "euclideanDistance [0, 0] [10, 10] = sqrt 200"
  by (simp_all add: euclideanDistance_def)

lemma best_distinct:
  "bestCluster [[0, 0], [10, 10]] [0, 0] = 0"
  "bestCluster [[0, 0], [10, 10]] [10, 10] = 1"
  "bestCluster [[10, 10], [0, 0]] [0, 0] = 1"
  "bestCluster [[10, 10], [0, 0]] [10, 10] = 0"
  by (simp_all add: bestCluster_def dist_trivial)

lemma upt4: "[0..<4] = [0, 1, 2, 3]" "[0..<2] = [0, 1]"
  by (simp_all add: upt_rec numeral_eq_Suc)

lemma update_distinct:
  "updateCentroids 2 trivialRows [0, 0, Suc 0, Suc 0] [[0, 0], [10, 10]] = [[0, 0], [10, 10]]"
  "updateCentroids 2 trivialRows [Suc 0, Suc 0, 0, 0] [[10, 10], [0, 0]] = [[10, 10], [0, 0]]"
  by (simp_all add: updateCentroids_def clusterSums_def clusterCounts_def trivialRows_def upt4 Let_def)

lemma assign_distinct:
  "map (bestCluster [[0, 0], [10, 10]]) trivialRows = [0, 0, Suc 0, Suc 0]"
  "map (bestCluster [[10, 10], [0, 0]]) trivialRows = [Suc 0, Suc 0, 0, 0]"
  by (simp_all add: trivialRows_def best_distinct)

lemma best_equal:
  "bestCluster [[0, 0], [0, 0]] [0, 0] = 0"
  "bestCluster [[0, 0], [0, 0]] [10, 10] = 0"
  by (simp_all add: bestCluster_def dist_trivial)

lemma loop_equal:
  "kmeansLoop [[0, 0], [0, 0], [10, 10], [10, 10]] 2 40 0 [0, 0, 0, 0] [[0, 0], [0, 0]]
     = ([0, 0, 0, 0], [[0, 0], [0, 0]], 0)"
  by (simp add: kmeansLoop.simps best_equal)

lemma inertia_equal:
  "inertiaOf [[0, 0], [0, 0], [10, 10], [10, 10]] [0, 0, 0, 0] [[0, 0], [0, 0]] = 400"
  by (simp add: inertiaOf_def dist_trivial upt4)

lemma toFixed_400: "toFixed 400 3 = 400"
  by (simp add: toFixed_def)

text \<open>
  C8 at its own input. \<^verbatim>\<open>runKMeans\<close> takes no seed; its generator is seeded with \<open>1993\<close>.
  The generator returns \<^verbatim>\<open>(s & 0xffffffff) / 0x100000000\<close>, where \<^verbatim>\<open>&\<close> reads the state as a
  signed integer although \<^verbatim>\<open>>>> 0\<close> has just made it unsigned, and on four rows its
  draws give the indices \<open>0, 0, -2, 1\<close>. The initial centroids are rows \<open>0\<close> and \<open>1\<close>, both
  \<open>[0, 0]\<close>; every row is nearest to the first, no label changes, and the loop stops in
  its first round: one cluster of four rows, inertia \<open>400\<close>.
\<close>

theorem C8_trivial_scenario_one_cluster:
  "runKMeans notNumeric trivialBatch 2 40 =
     \<lparr>labels = [0, 0, 0, 0], centroids = [[0, 0], [0, 0]], iterations = Some 0,
      inertia = Some 400, noiseCount = None\<rparr>"
proof -
  have nonempty: "trivialBatch \<noteq> []" "length trivialBatch = 4"
    by (simp_all add: trivialBatch_def)
  have fl: "fullLabels 4 [0, Suc 0, 2, 3] [0, 0, 0, 0] = [0, 0, 0, 0]"
    by (simp add: fullLabels_def enumerate_eq_zip upt_rec numeral_eq_Suc)
  show ?thesis
    using choose_trivial loop_equal
    by (simp add: runKMeans_def nonempty extract_trivialBatch Let_def inertia_equal toFixed_400 fl)
qed

text \<open>
  With the state read unsigned the three draws give the indices \<open>0, 0, 2\<close>
  (\<open>draws_signed_unsigned\<close>), the rows \<open>[0, 0]\<close> and \<open>[10, 10]\<close>. From these centroids, in
  either order, the loop ends after one recomputation with two clusters of two rows each,
  the centroids \<open>[0, 0]\<close> and \<open>[10, 10]\<close>, and inertia \<open>0\<close>.
\<close>

lemma kmeansLoop_distinct_start:
  "kmeansLoop trivialRows 2 40 0 [0, 0, 0, 0] [[0, 0], [10, 10]] = ([0, 0, 1, 1], [[0, 0], [10, 10]], 1)
   \<and> inertiaOf trivialRows [0, 0, 1, 1] [[0, 0], [10, 10]] = 0
   \<and> kmeansLoop trivialRows 2 40 0 [0, 0, 0, 0] [[10, 10], [0, 0]] = ([1, 1, 0, 0], [[10, 10], [0, 0]], 1)
   \<and> inertiaOf trivialRows [1, 1, 0, 0] [[10, 10], [0, 0]] = 0"
proof -
  have "kmeansLoop trivialRows 2 40 0 [0, 0, 0, 0] [[0, 0], [10, 10]] = ([0, 0, 1, 1], [[0, 0], [10, 10]], 1)"
    by (simp add: kmeansLoop.simps[of _ _ _ 0] kmeansLoop.simps[of _ _ _ "Suc 0"]
        assign_distinct update_distinct)
  moreover have "kmeansLoop trivialRows 2 40 0 [0, 0, 0, 0] [[10, 10], [0, 0]] = ([1, 1, 0, 0], [[10, 10], [0, 0]], 1)"
    by (simp add: kmeansLoop.simps[of _ _ _ 0] kmeansLoop.simps[of _ _ _ "Suc 0"]
        assign_distinct update_distinct)
  moreover have "inertiaOf trivialRows [0, 0, 1, 1] [[0, 0], [10, 10]] = 0"
    "inertiaOf trivialRows [1, 1, 0, 0] [[10, 10], [0, 0]] = 0"
    by (simp_all add: inertiaOf_def trivialRows_def upt4 dist_trivial)
  ultimately show ?thesis by simp
qed

subsection \<open>C9: one insight per label, with its size, largest first\<close>

text \<open>
  C9: for every list of enriched records, \<^verbatim>\<open>clusterInsights\<close> holds exactly one insight for
  each cluster label that occurs (the noise label \<open>-1\<close> among them), the size of an insight
  is the number of records with its label, and the sizes are in descending order.
\<close>

theorem C9_insights:
  "distinct (map id' (clusterInsights ns))
   \<and> set (map id' (clusterInsights ns)) = clusterId ` set ns
   \<and> (\<forall>insight \<in> set (clusterInsights ns).
         size' insight = length (filter (\<lambda>n. clusterId n = id' insight) ns))
   \<and> sorted_wrt (\<lambda>a b. b \<le> a) (map size' (clusterInsights ns))"
proof -
  let ?g = "grouped ns"
  let ?f = "\<lambda>insight. - int (size' insight)"
  have ok: "groupedOk ns ?g" by (rule groupedOk_grouped)
  have ids: "map id' (map insightOf ?g) = map fst ?g"
    by (simp add: o_def insightOf_def Let_def split_beta)
  have inj: "distinct (map id' (map insightOf ?g))"
    using ok by (simp only: ids) (simp add: groupedOk_def)
  have 1: "distinct (map id' (clusterInsights ns))"
    using inj by (simp only: clusterInsights_def distinct_map_sort_key)
  have "set (map id' (clusterInsights ns)) = set (map id' (map insightOf ?g))"
    by (simp only: clusterInsights_def set_map_sort_key)
  also have "\<dots> = fst ` set ?g"
    by (simp only: ids list.set_map)
  finally have 2: "set (map id' (clusterInsights ns)) = clusterId ` set ns"
    using ok by (simp add: groupedOk_def)
  have 3: "size' insight = length (filter (\<lambda>n. clusterId n = id' insight) ns)"
    if "insight \<in> set (clusterInsights ns)" for insight
  proof -
    from that obtain k b where kb: "(k, b) \<in> set ?g" "insight = insightOf (k, b)"
      by (auto simp: clusterInsights_def)
    then show ?thesis
      by (simp add: insightOf_id insightOf_size grouped_bucket[OF kb(1), symmetric])
  qed
  have "sorted (map ?f (clusterInsights ns))"
    by (simp add: clusterInsights_def)
  then have "sorted_wrt (\<lambda>a b. size' b \<le> size' a) (clusterInsights ns)"
    by (simp add: sorted_map sorted_wrt_iff_nth_less)
  then have 4: "sorted_wrt (\<lambda>a b. b \<le> a) (map size' (clusterInsights ns))"
    by (simp add: sorted_wrt_map)
  from 1 2 3 4 show ?thesis by blast
qed


text \<open>Three records, one unassigned and two in cluster \<open>0\<close>.\<close>

definition pnode :: "string \<Rightarrow> int \<Rightarrow> ProjectedNode" where
  "pnode k c = \<lparr>key = k, region = ''r'', embedding = JNull, volatility = 0, velocity = 0,
               xPos = 0, yPos = 0, clusterId = c\<rparr>"

definition sampleNodes :: "ProjectedNode list" where
  "sampleNodes = [pnode ''a'' (- 1), pnode ''b'' 0, pnode ''c'' 0]"

lemma insights_sample:
  "clusterInsights sampleNodes =
     [\<lparr>id' = 0, size' = 2, avgVolatility = 0, avgVelocity = 0, topRegions = [''r''], sampleKeys = [''b'', ''c'']\<rparr>,
      \<lparr>id' = - 1, size' = 1, avgVolatility = 0, avgVelocity = 0, topRegions = [''r''], sampleKeys = [''a'']\<rparr>]"
  by (simp add: clusterInsights_def grouped_def sampleNodes_def pnode_def insightOf_def toFixed_def
      objectEntries_def isArrayIndex_def Let_def)

text \<open>C9 at the three records: the insight of cluster \<open>0\<close>, of size 2, then the noise insight.\<close>

theorem C9_insights_witness:
  "map id' (clusterInsights sampleNodes) = [0, - 1]
   \<and> map size' (clusterInsights sampleNodes) = [2, 1]
   \<and> length (filter (\<lambda>n. clusterId n = 0) sampleNodes) = 2
   \<and> length (filter (\<lambda>n. clusterId n = - 1) sampleNodes) = 1"
  using C9_insights[of sampleNodes] by (simp add: insights_sample)

subsection \<open>C10: the projector returns one point per record\<close>

text \<open>
  C10, as the claim states it, fails. The records that the normalization drops include
  those whose embedding is missing; \<^verbatim>\<open>projectTo2D\<close> calls \<^verbatim>\<open>forEach\<close> on the missing
  field and throws, so it returns no point at all for the batch.
\<close>

theorem C10_counterexample:
  "projectTo2D halves [node (numbers [1, 2]), node JUndefined] = None"
  by (simp add: projectTo2D_def node_def numbers_def)

text \<open>
  C10, amended: for every non-empty batch in which the embedding of every record is an
  array, \<^verbatim>\<open>projectTo2D\<close> returns, with exactly one point per record and two components
  whose length is the length of the first record's embedding. It makes no other test: a
  record with an empty array, or an array of another length, has its point.
\<close>

theorem C10_one_point_per_array_record:
  assumes "data \<noteq> []" "list_all (\<lambda>n. isArray (embedding n)) data"
  shows "\<exists>r. projectTo2D rnd data = Some r
           \<and> length (projected r) = length data
           \<and> map length (components r) = [arrayLength (embedding (data ! 0)), arrayLength (embedding (data ! 0))]"
proof -
  from those_arrays[OF assms(2)] obtain rows where
    r: "those (map (\<lambda>n. arrayOf (embedding n)) data) = Some rows" "length rows = length data"
      "\<forall>i < length data. length (rows ! i) = arrayLength (embedding (data ! i))"
    by blast
  from r(3) assms(1) have "length (rows ! 0) = arrayLength (embedding (data ! 0))"
    by simp
  with r(1,2) assms(1) show ?thesis
    by (simp add: projectTo2D_def projectRows_shape)
qed

text \<open>
  Four records of lengths 2, 0, 1 and 3. The normalization drops the second, pads the
  third and truncates the fourth.
\<close>

definition raggedBatch :: "SemanticNode list" where
  "raggedBatch = [node (numbers [1, 2]), node (JArray []), node (numbers [3]), node (numbers [4, 5, 6])]"

text \<open>C10, amended, at the four records: four points, two components of length 2.\<close>

theorem C10_one_point_per_array_record_witness:
  "raggedBatch \<noteq> [] \<and> list_all (\<lambda>n. isArray (embedding n)) raggedBatch
   \<and> indices (extractValidEmbeddings notNumeric raggedBatch) = [0, 2, 3]
   \<and> vectors (extractValidEmbeddings notNumeric raggedBatch) = [[1, 2], [3, 0], [4, 5]]
   \<and> (\<exists>r. projectTo2D halves raggedBatch = Some r \<and> length (projected r) = 4
         \<and> map length (components r) = [2, 2])"
proof -
  have a: "raggedBatch \<noteq> []" "list_all (\<lambda>n. isArray (embedding n)) raggedBatch"
    by (simp_all add: raggedBatch_def node_def numbers_def isArray_def)
  have b: "extractValidEmbeddings notNumeric raggedBatch =
      \<lparr>indices = [0, 2, 3], vectors = [[1, 2], [3, 0], [4, 5]], dimension = 2\<rparr>"
    by (simp add: extractValidEmbeddings_def enumerate_eq_zip extractStep_unfold hasElement_def coercedRow_def
      elementsOf_def raggedBatch_def
        node_def numbers_def coerceEntry_def fitRow_def upt_rec numeral_eq_Suc)
  have l: "length raggedBatch = 4" "arrayLength (embedding (raggedBatch ! 0)) = 2"
    by (simp_all add: raggedBatch_def node_def numbers_def arrayLength_def)
  have e: "\<exists>r. projectTo2D halves raggedBatch = Some r \<and> length (projected r) = 4
         \<and> map length (components r) = [2, 2]"
    using C10_one_point_per_array_record[OF a, of halves] unfolding l .
  show ?thesis
    using a e by (simp add: b)
qed

end
